theory Spec2Isabelle
  imports Complex_Main "HOL-Library.AList" "HOL-Library.Multiset"
begin

section \<open>JavaScript values\<close>

text \<open>
  The installer (\<^verbatim>\<open>src/config-patch.ts\<close>) and the savings tracker (the script held in
  \<^verbatim>\<open>SAVINGS_TRACKER_MJS\<close>) work on values produced by \<^verbatim>\<open>JSON.parse\<close>. Such a value is
  \<^verbatim>\<open>null\<close>, a boolean, a number, a string, an array or an object; an object is kept as the
  list of its own properties in the order in which \<^verbatim>\<open>Object.entries\<close> lists them, read
  with \<open>map_of\<close> and written with \<open>AList.update\<close> (an existing key keeps its place, a
  new key goes to the end). That is the insertion order for keys that are not integer-like;
  JavaScript lists integer-like keys before the others in numeric order, and nothing
  proved here depends on the place of such a key. The keys of an object are distinct;
  where a property depends on it, \<open>distinct (map fst kvs)\<close> is a hypothesis. An object that \<^verbatim>\<open>JSON.parse\<close> made has the prototype
  \<^verbatim>\<open>Object.prototype\<close>, an array \<^verbatim>\<open>Array.prototype\<close>, and all their properties are own
  data properties, also one named \<^verbatim>\<open>__proto__\<close> or \<^verbatim>\<open>toString\<close>; none holds a function.
  \<^verbatim>\<open>undefined\<close>, which is no JSON value, is \<open>None\<close> of \<open>json option\<close>.

  Numbers are rationals, and \<^verbatim>\<open>NaN\<close>, where a conversion can produce it, is \<open>None\<close> of
  \<open>rat option\<close>; \<^verbatim>\<open>Infinity\<close> is outside this model. The token counters are sums of token
  counts, whole numbers below \<open>2^53\<close>, where the addition of doubles is exact: \<^verbatim>\<open>+\<close> on
  counters is the exact sum. The costs are fractions, and there every operation rounds
  its exact result to a double: the rounding is a parameter, \<open>roundNumber\<close> below.
\<close>

datatype json =
    JNull
  | JBool bool
  | JNum rat
  | JStr string
  | JArr "json list"
  | JObj "(string \<times> json) list"

type_synonym jobject = "(string \<times> json) list"

text \<open>
  The built-ins of the JavaScript runtime that the code calls and that are not code of the
  repository: \<^verbatim>\<open>JSON.parse\<close> (\<open>None\<close> when it throws), \<^verbatim>\<open>JSON.stringify(v, null, 2)\<close>,
  the conversion of a number to a string and of a string to a number (\<open>None\<close> for
  \<^verbatim>\<open>NaN\<close>), and the rounding of the exact result of \<^verbatim>\<open>*\<close>, \<^verbatim>\<open>/\<close>, \<^verbatim>\<open>+\<close> and \<^verbatim>\<open>-\<close> to
  the nearest double.
\<close>

record js_env =
  JSON_parse :: "string \<Rightarrow> json option"
  JSON_stringify :: "json \<Rightarrow> string"
  numberToString :: "rat \<Rightarrow> string"
  stringToNumber :: "string \<Rightarrow> rat option"
  roundNumber :: "rat \<Rightarrow> rat"

text \<open>The exception that a conversion of a value can throw.\<close>

datatype js_error = TypeError

fun typeof :: "json option \<Rightarrow> string" where
  "typeof None = ''undefined''"
| "typeof (Some JNull) = ''object''"
| "typeof (Some (JBool b)) = ''boolean''"
| "typeof (Some (JNum n)) = ''number''"
| "typeof (Some (JStr s)) = ''string''"
| "typeof (Some (JArr xs)) = ''object''"
| "typeof (Some (JObj kvs)) = ''object''"

fun Array_isArray :: "json option \<Rightarrow> bool" where
  "Array_isArray (Some (JArr xs)) = True"
| "Array_isArray v = False"

text \<open>The cast \<^verbatim>\<open>v as Record<string, unknown>\<close>: the properties of an object.\<close>

fun propsOf :: "json \<Rightarrow> jobject" where
  "propsOf (JObj kvs) = kvs"
| "propsOf v = []"

text \<open>
  Property access \<^verbatim>\<open>v.k\<close> on a non-nullish value, for the keys the tracker reads
  (\<^verbatim>\<open>message\<close>, \<^verbatim>\<open>usage\<close>, \<^verbatim>\<open>timestamp\<close>, \<^verbatim>\<open>input\<close>, \<^verbatim>\<open>input_tokens\<close>, \<^verbatim>\<open>output\<close>,
  \<^verbatim>\<open>output_tokens\<close>): none of them is a property of a number, string, boolean or array.
\<close>

definition getProp :: "json \<Rightarrow> string \<Rightarrow> json option" where
  "getProp v k = (case v of JObj kvs \<Rightarrow> map_of kvs k | _ \<Rightarrow> None)"

text \<open>Optional chaining \<^verbatim>\<open>m?.k\<close> and the nullish coalescing \<^verbatim>\<open>a ?? d\<close>.\<close>

definition optChain :: "json option \<Rightarrow> string \<Rightarrow> json option" where
  "optChain m k = (case m of None \<Rightarrow> None | Some JNull \<Rightarrow> None | Some v \<Rightarrow> getProp v k)"

definition nullishOr :: "json option \<Rightarrow> json \<Rightarrow> json" where
  "nullishOr a d = (case a of None \<Rightarrow> d | Some JNull \<Rightarrow> d | Some v \<Rightarrow> v)"

fun truthy :: "json \<Rightarrow> bool" where
  "truthy JNull = False"
| "truthy (JBool b) = b"
| "truthy (JNum n) = (n \<noteq> 0)"
| "truthy (JStr s) = (s \<noteq> [])"
| "truthy (JArr xs) = True"
| "truthy (JObj kvs) = True"

fun joinWith :: "string \<Rightarrow> string list \<Rightarrow> string" where
  "joinWith sep [] = []"
| "joinWith sep [x] = x"
| "joinWith sep (x # y # ys) = x @ sep @ joinWith sep (y # ys)"

text \<open>
  \<^verbatim>\<open>ToPrimitive\<close>. A primitive value is itself. For an array,
  \<^verbatim>\<open>Array.prototype.toString\<close> joins the strings of the elements with commas, where
  \<^verbatim>\<open>null\<close> gives the empty string. For an object, \<^verbatim>\<open>Object.prototype.valueOf\<close> returns
  the object, which is no primitive, and an own property \<^verbatim>\<open>valueOf\<close> holds no function
  and is passed over; \<^verbatim>\<open>toString\<close> is \<^verbatim>\<open>Object.prototype.toString\<close>, which returns
  \<^verbatim>\<open>"[object Object]"\<close>, unless the object has an own property \<^verbatim>\<open>toString\<close>: that holds
  no function, no method is left, and the conversion throws a \<^verbatim>\<open>TypeError\<close>.
\<close>

datatype primitive = PNull | PBool bool | PNum rat | PStr string

fun primitiveToString :: "js_env \<Rightarrow> primitive \<Rightarrow> string" where
  "primitiveToString E PNull = ''null''"
| "primitiveToString E (PBool b) = (if b then ''true'' else ''false'')"
| "primitiveToString E (PNum n) = numberToString E n"
| "primitiveToString E (PStr s) = s"

fun primitiveToNumber :: "js_env \<Rightarrow> primitive \<Rightarrow> rat option" where
  "primitiveToNumber E PNull = Some 0"
| "primitiveToNumber E (PBool b) = Some (if b then 1 else 0)"
| "primitiveToNumber E (PNum n) = Some n"
| "primitiveToNumber E (PStr s) = stringToNumber E s"

fun toPrimitive :: "js_env \<Rightarrow> json \<Rightarrow> js_error + primitive"
  and elementStrings :: "js_env \<Rightarrow> json list \<Rightarrow> js_error + string list" where
  "toPrimitive E JNull = Inr PNull"
| "toPrimitive E (JBool b) = Inr (PBool b)"
| "toPrimitive E (JNum n) = Inr (PNum n)"
| "toPrimitive E (JStr s) = Inr (PStr s)"
| "toPrimitive E (JArr xs) =
     (case elementStrings E xs of Inl e \<Rightarrow> Inl e
      | Inr strs \<Rightarrow> Inr (PStr (joinWith '','' strs)))"
| "toPrimitive E (JObj kvs) =
     (if map_of kvs ''toString'' \<noteq> None then Inl TypeError
      else Inr (PStr ''[object Object]''))"
| "elementStrings E [] = Inr []"
| "elementStrings E (x # xs) =
     (case (if x = JNull then Inr (PStr []) else toPrimitive E x) of Inl e \<Rightarrow> Inl e
      | Inr p \<Rightarrow>
          (case elementStrings E xs of Inl e \<Rightarrow> Inl e
           | Inr strs \<Rightarrow> Inr (primitiveToString E p # strs)))"

text \<open>\<^verbatim>\<open>ToNumber\<close>.\<close>

definition toNumber :: "js_env \<Rightarrow> json \<Rightarrow> js_error + rat option" where
  "toNumber E v =
     (case toPrimitive E v of Inl e \<Rightarrow> Inl e | Inr p \<Rightarrow> Inr (primitiveToNumber E p))"

text \<open>
  The operator \<^verbatim>\<open>+\<close> (and so \<^verbatim>\<open>+=\<close>): both operands go through \<^verbatim>\<open>ToPrimitive\<close>, the
  left one first; the result is the concatenation of their strings as soon as one of the
  primitives is a string, and the sum of their numbers otherwise. In the second case both
  are \<^verbatim>\<open>null\<close>, booleans or numbers, and \<open>numberOf\<close> is their \<^verbatim>\<open>ToNumber\<close>.
\<close>

fun isString :: "primitive \<Rightarrow> bool" where
  "isString (PStr s) = True"
| "isString p = False"

fun numberOf :: "primitive \<Rightarrow> rat" where
  "numberOf (PNum n) = n"
| "numberOf (PBool b) = (if b then 1 else 0)"
| "numberOf p = 0"

definition jsAdd :: "js_env \<Rightarrow> json \<Rightarrow> json \<Rightarrow> js_error + json" where
  "jsAdd E a b =
     (case toPrimitive E a of Inl e \<Rightarrow> Inl e
      | Inr pa \<Rightarrow>
          (case toPrimitive E b of Inl e \<Rightarrow> Inl e
           | Inr pb \<Rightarrow>
               Inr (if isString pa \<or> isString pb
                    then JStr (primitiveToString E pa @ primitiveToString E pb)
                    else JNum (numberOf pa + numberOf pb))))"

text \<open>
  The comparison \<^verbatim>\<open>v < c\<close> with a number \<open>c\<close> on the right: the left operand goes through
  \<^verbatim>\<open>ToNumber\<close>, and the comparison is false when that is \<^verbatim>\<open>NaN\<close>.
\<close>

definition jsLess :: "js_env \<Rightarrow> json \<Rightarrow> rat \<Rightarrow> js_error + bool" where
  "jsLess E v c =
     (case toNumber E v of Inl e \<Rightarrow> Inl e
      | Inr None \<Rightarrow> Inr False
      | Inr (Some n) \<Rightarrow> Inr (n < c))"

definition digit :: "nat \<Rightarrow> char" where
  "digit d = ''0123456789'' ! d"

text \<open>The decimal numeral of a natural number, as a template literal prints an integer.\<close>

fun decimal :: "nat \<Rightarrow> string" where
  "decimal n = (if n < 10 then [digit n] else decimal (n div 10) @ [digit (n mod 10)])"

section \<open>The installer: \<^verbatim>\<open>src/config-patch.ts\<close>\<close>

subsection \<open>\<^verbatim>\<open>deepMerge\<close>\<close>

text \<open>
  The spread \<^verbatim>\<open>{ ...target }\<close>: the own enumerable properties of the target. For an
  object these are its properties; an array or a string spreads its elements under their
  indices, any other value spreads to nothing.
\<close>

fun spread :: "json \<Rightarrow> jobject" where
  "spread (JObj kvs) = kvs"
| "spread (JArr xs) = zip (map decimal [0..<length xs]) xs"
| "spread (JStr s) = zip (map decimal [0..<length s]) (map (\<lambda>c. JStr [c]) s)"
| "spread v = []"

text \<open>
  \<^verbatim>\<open>out[key]\<close> reads and \<^verbatim>\<open>out[key] = v\<close> writes through the prototype chain of
  \<^verbatim>\<open>out\<close>. The object \<^verbatim>\<open>{ ...target }\<close> starts with the prototype \<^verbatim>\<open>Object.prototype\<close>,
  whose property \<^verbatim>\<open>__proto__\<close> is an accessor: its getter returns the prototype of
  \<^verbatim>\<open>out\<close>, its setter makes the assigned value the prototype of \<^verbatim>\<open>out\<close> when that is
  an object, an array or \<^verbatim>\<open>null\<close>, and does nothing for another value. So the object
  under construction is a pair of its own properties and its prototype. A prototype is
  \<^verbatim>\<open>Object.prototype\<close>, \<^verbatim>\<open>null\<close>, an array, or an object with its own properties and its
  own prototype.
\<close>

datatype prototype =
    ObjectPrototype
  | NullPrototype
  | ArrayValue "json list"
  | ObjectValue jobject prototype

text \<open>
  What the chain holds under a key: a data property with a JSON value; the accessor
  \<^verbatim>\<open>__proto__\<close>; or nothing that is an object (no property, or one of the functions of
  \<^verbatim>\<open>Object.prototype\<close> and \<^verbatim>\<open>Array.prototype\<close>, which are writable data properties). The
  own properties of an array are its elements under their indices and \<^verbatim>\<open>length\<close>; behind
  an array comes \<^verbatim>\<open>Array.prototype\<close> and then \<^verbatim>\<open>Object.prototype\<close>.
\<close>

datatype property = DataProperty json | ProtoAccessor | NoValue

definition arrayMember :: "json list \<Rightarrow> string \<Rightarrow> json option" where
  "arrayMember xs key =
     (if key = ''length'' then Some (JNum (of_nat (length xs)))
      else map_of (zip (map decimal [0..<length xs]) xs) key)"

definition inObjectPrototype :: "string \<Rightarrow> property" where
  "inObjectPrototype key = (if key = ''__proto__'' then ProtoAccessor else NoValue)"

fun findProperty :: "prototype \<Rightarrow> string \<Rightarrow> property" where
  "findProperty ObjectPrototype key = inObjectPrototype key"
| "findProperty NullPrototype key = NoValue"
| "findProperty (ArrayValue xs) key =
     (case arrayMember xs key of Some v \<Rightarrow> DataProperty v
      | None \<Rightarrow> inObjectPrototype key)"
| "findProperty (ObjectValue props proto) key =
     (case map_of props key of Some v \<Rightarrow> DataProperty v
      | None \<Rightarrow> findProperty proto key)"

text \<open>
  The prototype as the value the getter returns; of \<^verbatim>\<open>Object.prototype\<close> the test and
  the spread of \<^verbatim>\<open>deepMerge\<close> see an object that is no array and has no enumerable own
  property.
\<close>

fun protoValue :: "prototype \<Rightarrow> json" where
  "protoValue ObjectPrototype = JObj []"
| "protoValue NullPrototype = JNull"
| "protoValue (ArrayValue xs) = JArr xs"
| "protoValue (ObjectValue props proto) = JObj props"

text \<open>
  \<^verbatim>\<open>out[key]\<close>; \<open>None\<close> stands for \<^verbatim>\<open>undefined\<close> and for an inherited function, whose
  \<^verbatim>\<open>typeof\<close> is not \<^verbatim>\<open>"object"\<close> either.
\<close>

definition getMember :: "jobject \<times> prototype \<Rightarrow> string \<Rightarrow> json option" where
  "getMember out key =
     (case map_of (fst out) key of Some v \<Rightarrow> Some v
      | None \<Rightarrow>
          (case findProperty (snd out) key of
             DataProperty v \<Rightarrow> Some v
           | ProtoAccessor \<Rightarrow> Some (protoValue (snd out))
           | NoValue \<Rightarrow> None))"

text \<open>
  \<^verbatim>\<open>out[key] = v\<close>, the value given as the JSON value an own property holds and as the
  prototype the setter installs (\<open>None\<close> for a value the setter ignores). An own property
  is overwritten; the setter is reached when \<^verbatim>\<open>out\<close> has no own property of the name;
  in every other case \<^verbatim>\<open>out\<close> gets a new own property.
\<close>

definition setMember ::
  "jobject \<times> prototype \<Rightarrow> string \<Rightarrow> json \<Rightarrow> prototype option \<Rightarrow> jobject \<times> prototype" where
  "setMember out key v asProto =
     (if map_of (fst out) key = None \<and> findProperty (snd out) key = ProtoAccessor
      then (case asProto of None \<Rightarrow> out | Some proto \<Rightarrow> (fst out, proto))
      else (AList.update key v (fst out), snd out))"

text \<open>A value of the source as a prototype: its objects have \<^verbatim>\<open>Object.prototype\<close>.\<close>

fun asPrototype :: "json \<Rightarrow> prototype option" where
  "asPrototype (JObj kvs) = Some (ObjectValue kvs ObjectPrototype)"
| "asPrototype (JArr xs) = Some (ArrayValue xs)"
| "asPrototype JNull = Some NullPrototype"
| "asPrototype v = None"

text \<open>
  \<^verbatim>\<open>deepMerge(target, source)\<close>: \<open>mergeEntries out entries\<close> is the loop
  \<^verbatim>\<open>for (const [key, val] of Object.entries(source))\<close> with the object \<^verbatim>\<open>out\<close> built so
  far. \<open>deepMergeObject\<close> returns the object \<^verbatim>\<open>out\<close> with its prototype, \<open>deepMerge\<close> its
  own properties, which is what \<^verbatim>\<open>JSON.stringify\<close> writes.
\<close>

function deepMergeObject :: "json \<Rightarrow> jobject \<Rightarrow> jobject \<times> prototype"
  and mergeEntries :: "jobject \<times> prototype \<Rightarrow> jobject \<Rightarrow> jobject \<times> prototype" where
  "deepMergeObject target source = mergeEntries (spread target, ObjectPrototype) source"
| "mergeEntries out [] = out"
| "mergeEntries out ((key, val) # rest) =
     (let existing = getMember out key in
      if val \<noteq> JNull \<and> typeof (Some val) = ''object'' \<and> \<not> Array_isArray (Some val) \<and>
         existing \<noteq> Some JNull \<and> typeof existing = ''object'' \<and> \<not> Array_isArray existing
      then (let merged = deepMergeObject (the existing) (propsOf val) in
            mergeEntries
              (setMember out key (JObj (fst merged))
                 (Some (ObjectValue (fst merged) (snd merged)))) rest)
      else mergeEntries (setMember out key val (asPrototype val)) rest)"
  by pat_completeness auto
termination
proof (relation "measure (\<lambda>x. case x of
          Inl (target, source) \<Rightarrow> 2 * size_list (size_prod (\<lambda>_. 0) size) source + 1
        | Inr (out, entries) \<Rightarrow> 2 * size_list (size_prod (\<lambda>_. 0) size) entries)", goal_cases)
  case 1
  show ?case by simp
next
  case (2 target source)
  show ?case by simp
next
  case (3 out key val rest existing)
  then show ?case by (cases val) simp_all
next
  case (4 out key val rest existing merged)
  then show ?case by simp
next
  case (5 out key val rest existing)
  then show ?case by simp
qed

definition deepMerge :: "json \<Rightarrow> jobject \<Rightarrow> jobject" where
  "deepMerge target source = fst (deepMergeObject target source)"

subsection \<open>The merge of the specification\<close>

text \<open>
  The specification words the merge over key-value mappings: for each entry of the
  patch, when the existing value at the key and the incoming value are both mappings
  (not \<^verbatim>\<open>null\<close>, not arrays) they are merged recursively and the result is stored;
  otherwise the incoming value replaces the existing one. \<open>specMerge\<close> follows these
  words, to be compared with \<open>deepMerge\<close>; \<open>mergeValue\<close> is what one entry stores.
\<close>

function specMerge :: "json \<Rightarrow> jobject \<Rightarrow> jobject"
  and specMergeEntries :: "jobject \<Rightarrow> jobject \<Rightarrow> jobject" where
  "specMerge target source = specMergeEntries (spread target) source"
| "specMergeEntries out [] = out"
| "specMergeEntries out ((key, val) # rest) =
     (let existing = map_of out key in
      if val \<noteq> JNull \<and> typeof (Some val) = ''object'' \<and> \<not> Array_isArray (Some val) \<and>
         existing \<noteq> Some JNull \<and> typeof existing = ''object'' \<and> \<not> Array_isArray existing
      then specMergeEntries
             (AList.update key (JObj (specMerge (the existing) (propsOf val))) out) rest
      else specMergeEntries (AList.update key val out) rest)"
  by pat_completeness auto
termination
proof (relation "measure (\<lambda>x. case x of
          Inl (target, source) \<Rightarrow> 2 * size_list (size_prod (\<lambda>_. 0) size) source + 1
        | Inr (out, entries) \<Rightarrow> 2 * size_list (size_prod (\<lambda>_. 0) size) entries)", goal_cases)
  case 1
  show ?case by simp
next
  case (2 target source)
  show ?case by simp
next
  case (3 out key val rest existing)
  then show ?case by (cases val) simp_all
next
  case (4 out key val rest existing)
  then show ?case by simp
next
  case (5 out key val rest existing)
  then show ?case by simp
qed

definition mergeValue :: "json option \<Rightarrow> json \<Rightarrow> json" where
  "mergeValue existing val =
     (case (existing, val) of
        (Some (JObj t), JObj s) \<Rightarrow> JObj (specMerge (JObj t) s)
      | _ \<Rightarrow> val)"

text \<open>A patch that holds the key \<^verbatim>\<open>__proto__\<close> in none of its objects.\<close>

fun protoFree :: "json \<Rightarrow> bool"
  and protoFreeProps :: "jobject \<Rightarrow> bool" where
  "protoFree (JObj kvs) = protoFreeProps kvs"
| "protoFree v = True"
| "protoFreeProps [] = True"
| "protoFreeProps ((key, val) # rest) =
     (key \<noteq> ''__proto__'' \<and> protoFree val \<and> protoFreeProps rest)"

subsection \<open>\<^verbatim>\<open>deepMerge\<close> on a store of objects\<close>

text \<open>
  In JavaScript an object is a reference: \<^verbatim>\<open>out[key] = val\<close> stores the reference
  \<^verbatim>\<open>val\<close>, and an assignment to a property changes the object for everyone who holds
  it. To say which objects \<^verbatim>\<open>deepMerge\<close> writes to, the same function is modelled a
  second time over a store: a list of objects and arrays, a reference being an index into
  it. \<^verbatim>\<open>{ ...target }\<close> allocates a new object at the end of the store. The store holds
  the own properties of the objects and not their prototypes: a key \<^verbatim>\<open>__proto__\<close> of the
  source, with which the assignment changes the prototype of the new object, is written
  into the new object like every other key.

  The recursion follows the nesting of \<^verbatim>\<open>source\<close>, which the store does not bound
  (an object can contain itself), so the function takes fuel: the number of nested calls
  it may make. \<open>None\<close> is the result when the fuel runs out.
\<close>

datatype ref_value = VNull | VBool bool | VNum rat | VStr string | VRef nat

datatype heap_object =
    HObject "(string \<times> ref_value) list"
  | HArray "ref_value list"

type_synonym heap = "heap_object list"

definition heapAt :: "heap \<Rightarrow> nat \<Rightarrow> heap_object option" where
  "heapAt h a = (if a < length h then Some (h ! a) else None)"

fun typeofRef :: "ref_value option \<Rightarrow> string" where
  "typeofRef None = ''undefined''"
| "typeofRef (Some VNull) = ''object''"
| "typeofRef (Some (VBool b)) = ''boolean''"
| "typeofRef (Some (VNum n)) = ''number''"
| "typeofRef (Some (VStr s)) = ''string''"
| "typeofRef (Some (VRef a)) = ''object''"

definition isArrayRef :: "heap \<Rightarrow> ref_value option \<Rightarrow> bool" where
  "isArrayRef h v =
     (case v of
        Some (VRef a) \<Rightarrow> (case heapAt h a of Some (HArray xs) \<Rightarrow> True | _ \<Rightarrow> False)
      | _ \<Rightarrow> False)"

text \<open>
  The own enumerable properties of a value, which \<^verbatim>\<open>{ ...v }\<close> copies and
  \<^verbatim>\<open>Object.entries(v)\<close> lists.
\<close>

definition ownProps :: "heap \<Rightarrow> ref_value \<Rightarrow> (string \<times> ref_value) list" where
  "ownProps h v =
     (case v of
        VRef a \<Rightarrow>
          (case heapAt h a of
             Some (HObject kvs) \<Rightarrow> kvs
           | Some (HArray xs) \<Rightarrow> zip (map decimal [0..<length xs]) xs
           | None \<Rightarrow> [])
      | VStr s \<Rightarrow> zip (map decimal [0..<length s]) (map (\<lambda>c. VStr [c]) s)
      | _ \<Rightarrow> [])"

text \<open>The assignment \<^verbatim>\<open>out[key] = v\<close> to the object at address \<open>a\<close>.\<close>

definition setProp :: "heap \<Rightarrow> nat \<Rightarrow> string \<Rightarrow> ref_value \<Rightarrow> heap" where
  "setProp h a key v =
     (case heapAt h a of
        Some (HObject kvs) \<Rightarrow> h[a := HObject (AList.update key v kvs)]
      | _ \<Rightarrow> h)"

function deepMergeRef ::
    "nat \<Rightarrow> heap \<Rightarrow> ref_value \<Rightarrow> ref_value \<Rightarrow> (heap \<times> ref_value) option"
  and mergeEntriesRef ::
    "nat \<Rightarrow> heap \<Rightarrow> nat \<Rightarrow> (string \<times> ref_value) list \<Rightarrow> heap option" where
  "deepMergeRef 0 h target source = None"
| "deepMergeRef (Suc fuel) h target source =
     (let out = length h; h1 = h @ [HObject (ownProps h target)] in
      case mergeEntriesRef fuel h1 out (ownProps h1 source) of
        None \<Rightarrow> None
      | Some h' \<Rightarrow> Some (h', VRef out))"
| "mergeEntriesRef fuel h out [] = Some h"
| "mergeEntriesRef fuel h out ((key, val) # rest) =
     (let existing = map_of (ownProps h (VRef out)) key in
      if val \<noteq> VNull \<and> typeofRef (Some val) = ''object'' \<and> \<not> isArrayRef h (Some val) \<and>
         existing \<noteq> Some VNull \<and> typeofRef existing = ''object'' \<and>
         \<not> isArrayRef h existing
      then (case deepMergeRef fuel h (the existing) val of
              None \<Rightarrow> None
            | Some (h', merged) \<Rightarrow>
                mergeEntriesRef fuel (setProp h' out key merged) out rest)
      else mergeEntriesRef fuel (setProp h out key val) out rest)"
  by pat_completeness auto
termination
  by (relation "inv_image (less_than <*lex*> less_than)
        (\<lambda>x. case x of
               Inl (fuel, h, target, source) \<Rightarrow> (2 * fuel, 0)
             | Inr (fuel, h, out, entries) \<Rightarrow> (2 * fuel + 1, length entries))") auto

subsection \<open>The document a reference stands for\<close>

text \<open>
  To compare the two models of \<^verbatim>\<open>deepMerge\<close>: the JSON document that a value of the
  store denotes, read to a given depth (\<open>None\<close> beyond it, and at an address outside the
  store); and the stores in which every reference is to an address of the store and to
  none of a set \<open>P\<close> of objects still under construction.
\<close>


fun reify :: "nat \<Rightarrow> heap \<Rightarrow> ref_value \<Rightarrow> json option"
  and reifyProps :: "nat \<Rightarrow> heap \<Rightarrow> (string \<times> ref_value) list \<Rightarrow> jobject option"
  and reifyList :: "nat \<Rightarrow> heap \<Rightarrow> ref_value list \<Rightarrow> json list option" where
  "reify n h VNull = Some JNull"
| "reify n h (VBool b) = Some (JBool b)"
| "reify n h (VNum x) = Some (JNum x)"
| "reify n h (VStr s) = Some (JStr s)"
| "reify 0 h (VRef a) = None"
| "reify (Suc n) h (VRef a) =
     (case heapAt h a of
        None \<Rightarrow> None
      | Some (HObject kvs) \<Rightarrow> map_option JObj (reifyProps n h kvs)
      | Some (HArray xs) \<Rightarrow> map_option JArr (reifyList n h xs))"
| "reifyProps n h [] = Some []"
| "reifyProps n h ((k, v) # kvs) =
     (case reify n h v of
        None \<Rightarrow> None
      | Some j \<Rightarrow> map_option ((#) (k, j)) (reifyProps n h kvs))"
| "reifyList n h [] = Some []"
| "reifyList n h (v # vs) =
     (case reify n h v of
        None \<Rightarrow> None
      | Some j \<Rightarrow> map_option ((#) j) (reifyList n h vs))"


definition validValue :: "nat \<Rightarrow> nat set \<Rightarrow> ref_value \<Rightarrow> bool" where
  "validValue L P v = (case v of VRef b \<Rightarrow> b < L \<and> b \<notin> P | _ \<Rightarrow> True)"

definition validObject :: "nat \<Rightarrow> nat set \<Rightarrow> heap_object \<Rightarrow> bool" where
  "validObject L P obj =
     (case obj of
        HObject kvs \<Rightarrow> list_all (\<lambda>(k, v). validValue L P v) kvs
      | HArray xs \<Rightarrow> list_all (validValue L P) xs)"

definition heapInv :: "heap \<Rightarrow> nat set \<Rightarrow> bool" where
  "heapInv h P = ((\<forall>p \<in> P. p < length h) \<and> list_all (validObject (length h) P) h)"

subsection \<open>Files addressed by path\<close>

text \<open>
  The installer reads and writes single files by their path. A file system is a map from
  paths to entries; the chain of parent directories of a path is not tracked. Every
  operation that Node.js lets fail on the kind of an entry returns the error as a value.
\<close>

datatype fs_error = ENOENT | EISDIR | ENOTDIR | EEXIST

datatype fsentry = RegularFile string | Directory

type_synonym filesystem = "string \<Rightarrow> fsentry option"

definition existsSync :: "filesystem \<Rightarrow> string \<Rightarrow> bool" where
  "existsSync fs p = (fs p \<noteq> None)"

definition readFileSync :: "filesystem \<Rightarrow> string \<Rightarrow> fs_error + string" where
  "readFileSync fs p =
     (case fs p of None \<Rightarrow> Inl ENOENT
      | Some Directory \<Rightarrow> Inl EISDIR
      | Some (RegularFile text) \<Rightarrow> Inr text)"

text \<open>\<^verbatim>\<open>fs.mkdirSync(p, { recursive: true })\<close>.\<close>

definition mkdirSync :: "string \<Rightarrow> filesystem \<Rightarrow> fs_error + filesystem" where
  "mkdirSync p fs =
     (case fs p of Some (RegularFile text) \<Rightarrow> Inl EEXIST
      | _ \<Rightarrow> Inr (fs(p \<mapsto> Directory)))"

definition writeFileSync :: "string \<Rightarrow> string \<Rightarrow> filesystem \<Rightarrow> fs_error + filesystem" where
  "writeFileSync p text fs =
     (case fs p of Some Directory \<Rightarrow> Inl EISDIR
      | _ \<Rightarrow> Inr (fs(p \<mapsto> RegularFile text)))"

definition copyFileSync :: "string \<Rightarrow> string \<Rightarrow> filesystem \<Rightarrow> fs_error + filesystem" where
  "copyFileSync src dest fs =
     (case fs src of None \<Rightarrow> Inl ENOENT
      | Some Directory \<Rightarrow> Inl EISDIR
      | Some (RegularFile text) \<Rightarrow>
          (case fs dest of Some Directory \<Rightarrow> Inl EISDIR
           | _ \<Rightarrow> Inr (fs(dest \<mapsto> RegularFile text))))"

text \<open>
  \<^verbatim>\<open>path.join\<close> and \<^verbatim>\<open>path.dirname\<close> on normalised POSIX paths, which is what
  \<^verbatim>\<open>path.join\<close> itself returns.
\<close>

definition path_join :: "string \<Rightarrow> string \<Rightarrow> string" where
  "path_join a b = a @ ''/'' @ b"

definition dirname :: "string \<Rightarrow> string" where
  "dirname p =
     (let d = rev (dropWhile (\<lambda>c. c \<noteq> CHR ''/'') (rev p)) in
      if d = [] then ''.'' else if butlast d = [] then ''/'' else butlast d)"

text \<open>The constants of \<^verbatim>\<open>types.ts\<close>; \<open>home\<close> is \<^verbatim>\<open>os.homedir()\<close>.\<close>

definition OPENCLAW_DIR :: "string \<Rightarrow> string" where
  "OPENCLAW_DIR home = path_join home ''.openclaw''"

definition CONFIG_PATH :: "string \<Rightarrow> string" where
  "CONFIG_PATH home = path_join (OPENCLAW_DIR home) ''openclaw.json''"

definition SANSA_MODEL_ENTRY :: json where
  "SANSA_MODEL_ENTRY = JObj
     [(''id'', JStr ''sansa-auto''),
      (''name'', JStr ''sansa-auto (Custom Provider)''),
      (''reasoning'', JBool True),
      (''input'', JArr [JStr ''text'', JStr ''image'']),
      (''cost'', JObj [(''input'', JNum (3 / 2)), (''output'', JNum 6),
                       (''cacheRead'', JNum 0), (''cacheWrite'', JNum 0)]),
      (''contextWindow'', JNum 131072),
      (''maxTokens'', JNum 32768)]"

subsection \<open>\<^verbatim>\<open>readJson\<close>, \<^verbatim>\<open>writeJson\<close>, \<^verbatim>\<open>patchOpenClawConfig\<close>\<close>

text \<open>\<^verbatim>\<open>readJson\<close> returns \<^verbatim>\<open>null\<close> when the read or the parse throws.\<close>

definition readJson :: "js_env \<Rightarrow> filesystem \<Rightarrow> string \<Rightarrow> json" where
  "readJson E fs filePath =
     (case readFileSync fs filePath of Inl e \<Rightarrow> JNull
      | Inr text \<Rightarrow> (case JSON_parse E text of None \<Rightarrow> JNull | Some v \<Rightarrow> v))"

definition writeJson :: "js_env \<Rightarrow> string \<Rightarrow> json \<Rightarrow> filesystem \<Rightarrow> fs_error + filesystem" where
  "writeJson E filePath data fs =
     (case mkdirSync (dirname filePath) fs of Inl e \<Rightarrow> Inl e
      | Inr fs1 \<Rightarrow> writeFileSync filePath (JSON_stringify E data @ [CHR 0x0A]) fs1)"

definition sansaPatch :: "string \<Rightarrow> jobject" where
  "sansaPatch apiKey =
     [(''models'', JObj
        [(''mode'', JStr ''merge''),
         (''providers'', JObj
            [(''sansa-ai'', JObj
                [(''baseUrl'', JStr ''https://api.sansaml.com/v1''),
                 (''apiKey'', JStr apiKey),
                 (''api'', JStr ''openai-completions''),
                 (''models'', JArr [SANSA_MODEL_ENTRY])])])]),
      (''agents'', JObj
        [(''defaults'', JObj
            [(''model'', JObj [(''primary'', JStr ''sansa-ai/sansa-auto'')]),
             (''models'', JObj
                [(''sansa-ai/sansa-auto'', JObj [(''alias'', JStr ''Sansa'')])])])])]"

text \<open>The path of the backup, \<^verbatim>\<open>`${CONFIG_PATH}.bak.${Date.now()}`\<close>.\<close>

definition backupPath :: "string \<Rightarrow> nat \<Rightarrow> string" where
  "backupPath home now = CONFIG_PATH home @ ''.bak.'' @ decimal now"

text \<open>
  The step \<^verbatim>\<open>if (fs.existsSync(CONFIG_PATH)) fs.copyFileSync(...)\<close>, which runs before
  \<^verbatim>\<open>writeJson\<close>.
\<close>

definition backupStep :: "string \<Rightarrow> nat \<Rightarrow> filesystem \<Rightarrow> fs_error + filesystem" where
  "backupStep home now fs =
     (if existsSync fs (CONFIG_PATH home)
      then copyFileSync (CONFIG_PATH home) (backupPath home now) fs
      else Inr fs)"

text \<open>
  \<^verbatim>\<open>patchOpenClawConfig(apiKey)\<close>; \<open>now\<close> is the value of \<^verbatim>\<open>Date.now()\<close>, the file
  system is passed in and returned.
\<close>

definition patchOpenClawConfig ::
  "js_env \<Rightarrow> string \<Rightarrow> nat \<Rightarrow> string \<Rightarrow> filesystem \<Rightarrow> fs_error + filesystem" where
  "patchOpenClawConfig E home now apiKey fs =
     (let existing = nullishOr (Some (readJson E fs (CONFIG_PATH home))) (JObj []);
          merged = deepMerge existing (sansaPatch apiKey)
      in case backupStep home now fs of Inl e \<Rightarrow> Inl e
         | Inr fs1 \<Rightarrow> writeJson E (CONFIG_PATH home) (JObj merged) fs1)"

section \<open>The savings tracker: \<^verbatim>\<open>SAVINGS_TRACKER_MJS\<close>\<close>

subsection \<open>The directory of session logs\<close>

text \<open>
  The tracker walks the tree below \<^verbatim>\<open>~/.openclaw/agents\<close>. A node is a file with its
  modification time (\<^verbatim>\<open>stat.mtimeMs\<close>) and text, or a directory with its entries; the
  path \<^verbatim>\<open>path.join(dir, name)\<close> of an entry that \<^verbatim>\<open>readdirSync\<close> listed stands for that
  entry.
\<close>

datatype fsnode =
    FileNode rat string
  | DirNode rat "(string \<times> fsnode) list"

fun mtimeMs :: "fsnode \<Rightarrow> rat" where
  "mtimeMs (FileNode m text) = m"
| "mtimeMs (DirNode m entries) = m"

fun isDirectory :: "fsnode \<Rightarrow> bool" where
  "isDirectory (DirNode m entries) = True"
| "isDirectory (FileNode m text) = False"

fun readdirNode :: "fsnode \<Rightarrow> fs_error + (string \<times> fsnode) list" where
  "readdirNode (DirNode m entries) = Inr entries"
| "readdirNode (FileNode m text) = Inl ENOTDIR"

fun readFileNode :: "fsnode \<Rightarrow> fs_error + string" where
  "readFileNode (FileNode m text) = Inr text"
| "readFileNode (DirNode m entries) = Inl EISDIR"

text \<open>The node at \<^verbatim>\<open>path.join(dir, name)\<close>, if it exists.\<close>

fun childNode :: "fsnode \<Rightarrow> string \<Rightarrow> fsnode option" where
  "childNode (DirNode m entries) name = map_of entries name"
| "childNode (FileNode m text) name = None"

definition endsWith :: "string \<Rightarrow> string \<Rightarrow> bool" where
  "endsWith s suffix =
     (length suffix \<le> length s \<and> drop (length s - length suffix) s = suffix)"

text \<open>\<^verbatim>\<open>text.split("\n")\<close>.\<close>

fun splitLines :: "string \<Rightarrow> string list" where
  "splitLines [] = [[]]"
| "splitLines (c # cs) =
     (if c = CHR 0x0A then [] # splitLines cs
      else (case splitLines cs of [] \<Rightarrow> [[c]] | l # ls \<Rightarrow> (c # l) # ls))"

text \<open>
  \<^verbatim>\<open>!line.trim()\<close>: the line holds white space only (the ASCII white space; a line of
  other Unicode white space is not valid JSON and is skipped by the \<^verbatim>\<open>catch\<close>).
\<close>

definition isSpace :: "char \<Rightarrow> bool" where
  "isSpace c = (c = CHR 0x09 \<or> c = CHR 0x0A \<or> c = CHR 0x0B \<or> c = CHR 0x0C \<or>
                c = CHR 0x0D \<or> c = CHR 0x20)"

definition isBlank :: "string \<Rightarrow> bool" where
  "isBlank line = list_all isSpace line"

subsection \<open>\<^verbatim>\<open>scanSessionLogs\<close>\<close>

record tokens =
  inputTokens :: json
  outputTokens :: json

text \<open>
  The token counts a usage block adds: \<^verbatim>\<open>usage.input ?? usage.input_tokens ?? 0\<close> and
  \<^verbatim>\<open>usage.output ?? usage.output_tokens ?? 0\<close>.
\<close>

definition inputOf :: "json \<Rightarrow> json" where
  "inputOf usage = nullishOr (getProp usage ''input'')
                     (nullishOr (getProp usage ''input_tokens'') (JNum 0))"

definition outputOf :: "json \<Rightarrow> json" where
  "outputOf usage = nullishOr (getProp usage ''output'')
                      (nullishOr (getProp usage ''output_tokens'') (JNum 0))"

text \<open>
  The two statements \<^verbatim>\<open>inputTokens += ...\<close> and \<^verbatim>\<open>outputTokens += ...\<close> inside the
  \<^verbatim>\<open>try\<close>. When \<^verbatim>\<open>+\<close> throws in the first, neither counter changes; when it throws in
  the second, the first has been assigned already.
\<close>

definition addUsage :: "js_env \<Rightarrow> json \<Rightarrow> tokens \<Rightarrow> tokens" where
  "addUsage E usage t =
     (case jsAdd E (inputTokens t) (inputOf usage) of Inl e \<Rightarrow> t
      | Inr i \<Rightarrow>
          (case jsAdd E (outputTokens t) (outputOf usage) of
             Inl e \<Rightarrow> t\<lparr>inputTokens := i\<rparr>
           | Inr out \<Rightarrow> t\<lparr>inputTokens := i, outputTokens := out\<rparr>))"

text \<open>
  The body of \<^verbatim>\<open>for (const line of lines)\<close>. Every exception inside the \<^verbatim>\<open>try\<close> is
  caught: \<^verbatim>\<open>JSON.parse\<close> throwing, \<^verbatim>\<open>entry.message\<close> on the entry \<^verbatim>\<open>null\<close>, and a
  \<^verbatim>\<open>TypeError\<close> of the comparison or of \<^verbatim>\<open>+\<close>.
\<close>

definition scanLine :: "js_env \<Rightarrow> rat \<Rightarrow> string \<Rightarrow> tokens \<Rightarrow> tokens" where
  "scanLine E sinceMs line t =
     (if isBlank line then t
      else case JSON_parse E line of None \<Rightarrow> t
        | Some entry \<Rightarrow>
            if entry = JNull then t
            else (case optChain (getProp entry ''message'') ''usage'' of None \<Rightarrow> t
              | Some usage \<Rightarrow>
                  if \<not> truthy usage then t
                  else let ts = nullishOr (optChain (getProp entry ''message'') ''timestamp'')
                                  (JNum 0)
                       in (case jsLess E ts sinceMs of Inl e \<Rightarrow> t
                           | Inr before \<Rightarrow> if before then t else addUsage E usage t)))"

text \<open>The loop over the \<^verbatim>\<open>.jsonl\<close> files of one sessions directory.\<close>

fun scanFiles ::
  "js_env \<Rightarrow> rat \<Rightarrow> (string \<times> fsnode) list \<Rightarrow> tokens \<Rightarrow> fs_error + tokens" where
  "scanFiles E sinceMs [] t = Inr t"
| "scanFiles E sinceMs ((file, node) # rest) t =
     (if mtimeMs node < sinceMs then scanFiles E sinceMs rest t
      else case readFileNode node of Inl e \<Rightarrow> Inl e
        | Inr text \<Rightarrow>
            scanFiles E sinceMs rest (fold (scanLine E sinceMs) (splitLines text) t))"

text \<open>
  The loop \<^verbatim>\<open>for (const sessionsDir of agentDirs)\<close>; an element is the node at the path
  of the sessions directory, \<open>None\<close> when \<^verbatim>\<open>fs.existsSync\<close> is false there.
\<close>

fun scanAgentDirs ::
  "js_env \<Rightarrow> rat \<Rightarrow> fsnode option list \<Rightarrow> tokens \<Rightarrow> fs_error + tokens" where
  "scanAgentDirs E sinceMs [] t = Inr t"
| "scanAgentDirs E sinceMs (sessionsDir # rest) t =
     (case sessionsDir of None \<Rightarrow> scanAgentDirs E sinceMs rest t
      | Some dir \<Rightarrow>
          (case readdirNode dir of Inl e \<Rightarrow> Inl e
           | Inr entries \<Rightarrow>
               (case scanFiles E sinceMs
                       (filter (\<lambda>(f, node). endsWith f ''.jsonl'') entries) t of
                  Inl e \<Rightarrow> Inl e
                | Inr t' \<Rightarrow> scanAgentDirs E sinceMs rest t')))"

text \<open>
  \<^verbatim>\<open>scanSessionLogs(sinceMs)\<close>; \<open>agents\<close> is the node at \<^verbatim>\<open>AGENTS_DIR\<close>, \<open>None\<close> when
  the directory does not exist.
\<close>

definition scanSessionLogs :: "js_env \<Rightarrow> fsnode option \<Rightarrow> rat \<Rightarrow> fs_error + tokens" where
  "scanSessionLogs E agents sinceMs =
     (let t0 = \<lparr>inputTokens = JNum 0, outputTokens = JNum 0\<rparr> in
      case agents of None \<Rightarrow> Inr t0
      | Some agentsDir \<Rightarrow>
          (case readdirNode agentsDir of Inl e \<Rightarrow> Inl e
           | Inr entries \<Rightarrow>
               scanAgentDirs E sinceMs
                 (map (\<lambda>(name, d). childNode d ''sessions'')
                    (filter (\<lambda>(name, d). isDirectory d) entries)) t0))"

subsection \<open>\<^verbatim>\<open>computeCosts\<close>\<close>

record tokenPricing =
  inputCostPerMillion :: rat
  outputCostPerMillion :: rat

record sansaConfig =
  baseline :: tokenPricing
  sansa :: tokenPricing

text \<open>The configuration that \<^verbatim>\<open>loadSansaConfig\<close> falls back to.\<close>

definition defaultSansaConfig :: sansaConfig where
  "defaultSansaConfig =
     \<lparr>baseline = \<lparr>inputCostPerMillion = 10, outputCostPerMillion = 5\<rparr>,
      sansa = \<lparr>inputCostPerMillion = 3 / 2, outputCostPerMillion = 6\<rparr>\<rparr>"

text \<open>
  A cost is a number or \<^verbatim>\<open>NaN\<close> (\<open>None\<close>): \<^verbatim>\<open>tokens.inputTokens / 1_000_000\<close>
  converts the counter with \<^verbatim>\<open>ToNumber\<close>, which can throw, and every operation on
  numbers rounds its exact result and keeps \<^verbatim>\<open>NaN\<close>. The conversion of a counter
  gives the same each time and is made once here. The prices are numbers.
\<close>

definition nanDivide :: "js_env \<Rightarrow> rat option \<Rightarrow> rat \<Rightarrow> rat option" where
  "nanDivide E a y = map_option (\<lambda>x. roundNumber E (x / y)) a"

definition nanTimes :: "js_env \<Rightarrow> rat option \<Rightarrow> rat \<Rightarrow> rat option" where
  "nanTimes E a y = map_option (\<lambda>x. roundNumber E (x * y)) a"

definition nanPlus :: "js_env \<Rightarrow> rat option \<Rightarrow> rat option \<Rightarrow> rat option" where
  "nanPlus E a b =
     (case (a, b) of (Some x, Some y) \<Rightarrow> Some (roundNumber E (x + y)) | _ \<Rightarrow> None)"

definition nanMinus :: "js_env \<Rightarrow> rat option \<Rightarrow> rat option \<Rightarrow> rat option" where
  "nanMinus E a b =
     (case (a, b) of (Some x, Some y) \<Rightarrow> Some (roundNumber E (x - y)) | _ \<Rightarrow> None)"

record costReport = tokens +
  baselineTotal :: "rat option"
  sansaTotal :: "rat option"
  saved :: "rat option"

definition computeCosts :: "js_env \<Rightarrow> tokens \<Rightarrow> sansaConfig \<Rightarrow> js_error + costReport" where
  "computeCosts E tokens config =
     (case toNumber E (inputTokens tokens) of Inl e \<Rightarrow> Inl e
      | Inr inputNumber \<Rightarrow>
     (case toNumber E (outputTokens tokens) of Inl e \<Rightarrow> Inl e
      | Inr outputNumber \<Rightarrow>
     (let baseInput = nanTimes E (nanDivide E inputNumber 1000000)
                        (inputCostPerMillion (baseline config));
          baseOutput = nanTimes E (nanDivide E outputNumber 1000000)
                         (outputCostPerMillion (baseline config));
          sansaInput = nanTimes E (nanDivide E inputNumber 1000000)
                         (inputCostPerMillion (sansa config));
          sansaOutput = nanTimes E (nanDivide E outputNumber 1000000)
                          (outputCostPerMillion (sansa config))
      in Inr \<lparr>inputTokens = inputTokens tokens,
              outputTokens = outputTokens tokens,
              baselineTotal = nanPlus E baseInput baseOutput,
              sansaTotal = nanPlus E sansaInput sansaOutput,
              saved = nanMinus E (nanPlus E baseInput baseOutput)
                        (nanPlus E sansaInput sansaOutput)\<rparr>)))"

text \<open>
  The formula of the specification for the cost of \<open>i\<close> input and \<open>j\<close> output tokens
  under a pricing table, \<open>i / 1000000 * inputCostPerMillion + j / 1000000 *
  outputCostPerMillion\<close>, with each operation rounded.
\<close>

definition tableCost :: "js_env \<Rightarrow> rat \<Rightarrow> rat \<Rightarrow> tokenPricing \<Rightarrow> rat" where
  "tableCost E i j pricing =
     roundNumber E
       (roundNumber E (roundNumber E (i / 1000000) * inputCostPerMillion pricing)
        + roundNumber E (roundNumber E (j / 1000000) * outputCostPerMillion pricing))"

text \<open>
  Three properties of the rounding to doubles: a rounded number rounds to itself; the
  halves of the whole numbers up to \<open>2^53\<close> are doubles; and the difference of a double
  and a greater double rounds to a negative number (doubles have gradual underflow: no
  difference of two distinct doubles rounds to zero).
\<close>

definition doubleRounding :: "(rat \<Rightarrow> rat) \<Rightarrow> bool" where
  "doubleRounding fl =
     ((\<forall>x. fl (fl x) = fl x)
      \<and> (\<forall>k :: int. \<bar>k\<bar> \<le> 2 ^ 53 \<longrightarrow> fl (of_int k / 2) = of_int k / 2)
      \<and> (\<forall>a b. fl a = a \<and> fl b = b \<and> a < b \<longrightarrow> fl (a - b) < 0))"

subsection \<open>The state and the main section of the script\<close>







subsection \<open>The usage records of a log directory\<close>

text \<open>
  For stating what a scan sums: the record a line holds, as the timestamp the scan compares
  (\<^verbatim>\<open>entry.message?.timestamp ?? 0\<close>) and the usage block, or \<open>None\<close> for a line that
  holds no record. A record is counted when the comparison of its timestamp with the
  cutoff returns false; it is passed over when the comparison returns true and when it
  throws.
\<close>

definition lineRecord :: "js_env \<Rightarrow> string \<Rightarrow> (json \<times> json) option" where
  "lineRecord E line =
     (if isBlank line then None
      else case JSON_parse E line of None \<Rightarrow> None
        | Some entry \<Rightarrow>
            if entry = JNull then None
            else (case optChain (getProp entry ''message'') ''usage'' of None \<Rightarrow> None
              | Some usage \<Rightarrow>
                  if \<not> truthy usage then None
                  else Some (nullishOr (optChain (getProp entry ''message'') ''timestamp'')
                               (JNum 0), usage)))"






fun isNumber :: "json \<Rightarrow> bool" where
  "isNumber (JNum n) = True"
| "isNumber v = False"









section \<open>Example inputs\<close>

text \<open>
  A sample environment, for evaluating the definitions on the example inputs below. Its
  \<^verbatim>\<open>JSON.parse\<close> knows the texts of \<open>sampleTexts\<close> and throws on every other text; its
  number conversions are right on whole numbers from 0 (and on numbers with one decimal
  digit, resp. on strings of decimal digits and strings that are no numeric literal); its
  \<^verbatim>\<open>JSON.stringify\<close> indents by two spaces and does not escape; its arithmetic rounds
  as that of IEEE 754 doubles does, \<open>binary64\<close> below.
\<close>

definition lineA :: string where
  \<open>lineA = ''{"message":{"usage":{"input":1},"timestamp":10}}''\<close>

definition lineB :: string where
  \<open>lineB = ''{"message":{"usage":{"input":2,"output":3},"timestamp":150}}''\<close>

definition lineUndated :: string where
  \<open>lineUndated = ''{"message":{"usage":{"input":5}}}''\<close>

definition lineMistyped :: string where
  \<open>lineMistyped = ''{"message":{"usage":{"input":"7","output":true},"timestamp":10}}''\<close>

definition lineNegative :: string where
  \<open>lineNegative = ''{"message":{"usage":{"input":-5},"timestamp":10}}''\<close>

definition lineObjectStamp :: string where
  \<open>lineObjectStamp = ''{"message":{"usage":{"input":9},"timestamp":{"toString":1}}}''\<close>

definition lineBroken :: string where
  \<open>lineBroken = ''{"message":{"usage":{"inp''\<close>

definition sampleTexts :: "(string \<times> json) list" where
  "sampleTexts =
     [(lineA, JObj [(''message'', JObj [(''usage'', JObj [(''input'', JNum 1)]),
                                         (''timestamp'', JNum 10)])]),
      (lineB, JObj [(''message'', JObj [(''usage'', JObj [(''input'', JNum 2),
                                                            (''output'', JNum 3)]),
                                         (''timestamp'', JNum 150)])]),
      (lineUndated, JObj [(''message'', JObj [(''usage'', JObj [(''input'', JNum 5)])])]),
      (lineMistyped, JObj [(''message'', JObj [(''usage'', JObj [(''input'', JStr ''7''),
                                                                   (''output'', JBool True)]),
                                                (''timestamp'', JNum 10)])]),
      (lineNegative, JObj [(''message'', JObj [(''usage'', JObj [(''input'', JNum (- 5))]),
                                                (''timestamp'', JNum 10)])]),
      (lineObjectStamp, JObj [(''message'', JObj [(''usage'', JObj [(''input'', JNum 9)]),
                                                   (''timestamp'', JObj [(''toString'', JNum 1)])])]),
      (''{}'', JObj [])]"

definition sampleNumberToString :: "rat \<Rightarrow> string" where
  "sampleNumberToString n =
     (let tenths = nat \<lfloor>\<bar>n\<bar> * 10\<rfloor> in
      (if n < 0 then ''-'' else []) @ decimal (tenths div 10) @
      (if tenths mod 10 = 0 then [] else ''.'' @ decimal (tenths mod 10)))"

definition sampleStringToNumber :: "string \<Rightarrow> rat option" where
  "sampleStringToNumber s =
     (if list_all (\<lambda>c. 48 \<le> (of_char c :: nat) \<and> (of_char c :: nat) \<le> 57) s
      then Some (of_nat (foldl (\<lambda>a c. 10 * a + (of_char c - 48)) 0 s))
      else None)"

fun sampleStringify :: "nat \<Rightarrow> json \<Rightarrow> string" where
  "sampleStringify d JNull = ''null''"
| "sampleStringify d (JBool b) = (if b then ''true'' else ''false'')"
| "sampleStringify d (JNum n) = sampleNumberToString n"
| "sampleStringify d (JStr s) = [CHR 0x22] @ s @ [CHR 0x22]"
| "sampleStringify d (JArr xs) =
     (if xs = [] then ''[]''
      else ''['' @ [CHR 0x0A] @
           joinWith ('','' @ [CHR 0x0A])
             (map (\<lambda>x. replicate (2 * Suc d) (CHR '' '') @ sampleStringify (Suc d) x) xs) @
           [CHR 0x0A] @ replicate (2 * d) (CHR '' '') @ '']'')"
| "sampleStringify d (JObj kvs) =
     (if kvs = [] then ''{}''
      else ''{'' @ [CHR 0x0A] @
           joinWith ('','' @ [CHR 0x0A])
             (map (\<lambda>(k, v). replicate (2 * Suc d) (CHR '' '') @ [CHR 0x22] @ k @ [CHR 0x22] @
                             '': '' @ sampleStringify (Suc d) v) kvs) @
           [CHR 0x0A] @ replicate (2 * d) (CHR '' '') @ ''}'')"

text \<open>
  The rounding of a rational number to the nearest double: to the nearest multiple of the
  unit in the last place of a number with 53 significant bits, which is \<open>2^(e - 52)\<close>
  for a number from \<open>2^e\<close> up to \<open>2^(e + 1)\<close> and is \<open>2^-1074\<close> for the numbers
  below \<open>2^-1022\<close>; of two nearest multiples the even one is taken. A result beyond
  the largest double, where JavaScript has \<^verbatim>\<open>Infinity\<close>, is not treated.
\<close>

fun bitLength :: "nat \<Rightarrow> nat" where
  "bitLength n = (if n = 0 then 0 else Suc (bitLength (n div 2)))"

declare bitLength.simps [simp del]

text \<open>The exponent \<open>e\<close> with \<open>2^e \<le> \<bar>x\<bar> < 2^(e + 1)\<close>, for \<open>x\<close> other than 0.\<close>

definition exponentOf :: "rat \<Rightarrow> int" where
  "exponentOf x =
     (if 1 \<le> \<bar>x\<bar> then int (bitLength (nat \<lfloor>\<bar>x\<bar>\<rfloor>)) - 1
      else - int (bitLength (nat (\<lceil>1 / \<bar>x\<bar>\<rceil> - 1))))"

definition roundHalfEven :: "rat \<Rightarrow> int" where
  "roundHalfEven y =
     (let f = \<lfloor>y\<rfloor>; r = y - of_int f in
      if r < 1 / 2 then f else if 1 / 2 < r then f + 1 else if even f then f else f + 1)"

definition binary64 :: "rat \<Rightarrow> rat" where
  "binary64 x =
     (if x = 0 then 0
      else let q = max (exponentOf x - 52) (- 1074) in
           of_int (roundHalfEven (x / 2 powi q)) * 2 powi q)"

definition sampleEnv :: js_env where
  "sampleEnv =
     \<lparr>JSON_parse = map_of sampleTexts,
      JSON_stringify = sampleStringify 0,
      numberToString = sampleNumberToString,
      stringToNumber = sampleStringToNumber,
      roundNumber = binary64\<rparr>"

text \<open>
  Log directories with one agent \<^verbatim>\<open>main\<close> and the given entries in its sessions
  directory, and a file of the given lines.
\<close>

definition sessionsOf :: "(string \<times> fsnode) list \<Rightarrow> fsnode option" where
  "sessionsOf entries =
     Some (DirNode 0 [(''main'', DirNode 0 [(''sessions'', DirNode 0 entries)])])"

definition logFile :: "rat \<Rightarrow> string list \<Rightarrow> fsnode" where
  "logFile m lines = FileNode m (joinWith [CHR 0x0A] lines)"

text \<open>
  The logs at a first scan; the logs later, after \<open>lineB\<close> was appended; and the logs
  later when \<open>lineB\<close> arrived in a second file whose modification time is 50.
\<close>

definition logsBefore :: "fsnode option" where
  "logsBefore = sessionsOf [(''a.jsonl'', logFile 10 [lineA])]"

definition logsAfter :: "fsnode option" where
  "logsAfter = sessionsOf [(''a.jsonl'', logFile 150 [lineA, lineB])]"

definition logsStale :: "fsnode option" where
  "logsStale = sessionsOf [(''a.jsonl'', logFile 10 [lineA]), (''b.jsonl'', logFile 50 [lineB])]"

definition logsUndated :: "fsnode option" where
  "logsUndated = sessionsOf [(''a.jsonl'', logFile 10 [lineUndated])]"

definition logsMistyped :: "fsnode option" where
  "logsMistyped = sessionsOf [(''a.jsonl'', logFile 10 [lineMistyped])]"

definition logsNegative :: "fsnode option" where
  "logsNegative = sessionsOf [(''a.jsonl'', logFile 10 [lineNegative])]"

definition logsObjectStamp :: "fsnode option" where
  "logsObjectStamp = sessionsOf [(''a.jsonl'', logFile 10 [lineObjectStamp, lineA])]"

text \<open>A store of objects: \<^verbatim>\<open>{a: {b: 1}, keep: [1, 2]}\<close> at 0 and \<^verbatim>\<open>{a: {c: 2}}\<close> at 3.\<close>

definition sampleHeap :: heap where
  "sampleHeap =
     [HObject [(''a'', VRef 1), (''keep'', VRef 2)],
      HObject [(''b'', VNum 1)],
      HArray [VNum 1, VNum 2],
      HObject [(''a'', VRef 4)],
      HObject [(''c'', VNum 2)]]"

text \<open>A home directory with a configuration file, and one without.\<close>

definition fsConfigured :: filesystem where
  "fsConfigured =
     [''/home/u/.openclaw'' \<mapsto> Directory,
      ''/home/u/.openclaw/openclaw.json'' \<mapsto> RegularFile ''{}'']"

definition fsFresh :: filesystem where
  "fsFresh = Map.empty"

section \<open>Properties of \<^verbatim>\<open>deepMerge\<close>\<close>

text \<open>The test of \<^verbatim>\<open>deepMerge\<close> holds exactly when both values are objects.\<close>

lemma mergeable_iff:
  "(val \<noteq> JNull \<and> typeof (Some val) = ''object'' \<and> \<not> Array_isArray (Some val) \<and>
    existing \<noteq> Some JNull \<and> typeof existing = ''object'' \<and> \<not> Array_isArray existing)
   \<longleftrightarrow> (\<exists>s t. val = JObj s \<and> existing = Some (JObj t))"
proof -
  have a: "(val \<noteq> JNull \<and> typeof (Some val) = ''object'' \<and> \<not> Array_isArray (Some val))
             \<longleftrightarrow> (\<exists>s. val = JObj s)"
    by (cases val) simp_all
  have b: "(existing \<noteq> Some JNull \<and> typeof existing = ''object'' \<and> \<not> Array_isArray existing)
             \<longleftrightarrow> (\<exists>t. existing = Some (JObj t))"
  proof (cases existing)
    case None
    then show ?thesis by simp
  next
    case (Some x)
    then show ?thesis by (cases x) simp_all
  qed
  from a b show ?thesis by auto
qed

lemma specMergeEntries_Cons:
  "specMergeEntries out ((key, val) # rest) =
     specMergeEntries (AList.update key (mergeValue (map_of out key) val) out) rest"
proof -
  let ?c = "val \<noteq> JNull \<and> typeof (Some val) = ''object'' \<and> \<not> Array_isArray (Some val) \<and>
    map_of out key \<noteq> Some JNull \<and> typeof (map_of out key) = ''object'' \<and>
    \<not> Array_isArray (map_of out key)"
  have eq: "specMergeEntries out ((key, val) # rest) =
      (if ?c then specMergeEntries
                   (AList.update key (JObj (specMerge (the (map_of out key)) (propsOf val))) out)
                   rest
       else specMergeEntries (AList.update key val out) rest)"
    by (simp only: specMergeEntries.simps Let_def)
  show ?thesis
  proof (cases "\<exists>s t. val = JObj s \<and> map_of out key = Some (JObj t)")
    case True
    then obtain s t where st: "val = JObj s" "map_of out key = Some (JObj t)" by blast
    have c: ?c using True mergeable_iff by blast
    have mv: "mergeValue (map_of out key) val =
                JObj (specMerge (the (map_of out key)) (propsOf val))"
      by (simp add: st mergeValue_def del: specMerge.simps)
    show ?thesis unfolding eq by (simp only: if_P[OF c] mv)
  next
    case False
    then have mv: "mergeValue (map_of out key) val = val"
      by (auto simp: mergeValue_def split: option.splits json.splits)
    have c: "\<not> ?c" using False mergeable_iff by blast
    show ?thesis unfolding eq by (simp only: if_not_P[OF c] mv)
  qed
qed

lemma map_of_specMergeEntries:
  "distinct (map fst entries) \<Longrightarrow>
   map_of (specMergeEntries out entries) k =
     (case map_of entries k of
        None \<Rightarrow> map_of out k
      | Some v \<Rightarrow> Some (mergeValue (map_of out k) v))"
proof (induction entries arbitrary: out)
  case Nil
  then show ?case by simp
next
  case (Cons e entries)
  obtain key val where e: "e = (key, val)" by (cases e)
  from Cons.prems have d: "distinct (map fst entries)" and nk: "key \<notin> fst ` set entries"
    by (auto simp: e)
  have nk': "map_of entries key = None"
    using nk by (simp add: map_of_eq_None_iff)
  show ?case
    unfolding e specMergeEntries_Cons Cons.IH[OF d]
    using nk' by (auto simp: update_conv' split: option.splits)
qed

lemma map_of_specMerge:
  "distinct (map fst source) \<Longrightarrow>
   map_of (specMerge target source) k =
     (case map_of source k of
        None \<Rightarrow> map_of (spread target) k
      | Some v \<Rightarrow> Some (mergeValue (map_of (spread target) k) v))"
  by (simp add: map_of_specMergeEntries)



lemma specMerge_patch_key:
  assumes "distinct (map fst patch)" and "map_of patch key = Some val"
  shows "(\<forall>t s. map_of target key = Some (JObj t) \<and> val = JObj s \<longrightarrow>
            map_of (specMerge (JObj target) patch) key = Some (JObj (specMerge (JObj t) s)))
       \<and> ((\<nexists>t s. map_of target key = Some (JObj t) \<and> val = JObj s) \<longrightarrow>
            map_of (specMerge (JObj target) patch) key = Some val)"
proof -
  have r: "map_of (specMerge (JObj target) patch) key = Some (mergeValue (map_of target key) val)"
    using assms by (simp add: map_of_specMerge del: specMerge.simps)
  show ?thesis
    unfolding r by (auto simp: mergeValue_def split: option.splits json.splits)
qed

text \<open>
  For a key other than \<^verbatim>\<open>__proto__\<close>, an object whose prototype is \<^verbatim>\<open>Object.prototype\<close>
  is read and written by its own properties.
\<close>

lemma getMember_own:
  "key \<noteq> ''__proto__'' \<Longrightarrow> getMember (props, ObjectPrototype) key = map_of props key"
  by (simp add: getMember_def inObjectPrototype_def split: option.splits)

lemma setMember_own:
  "key \<noteq> ''__proto__'' \<Longrightarrow>
   setMember (props, ObjectPrototype) key v p = (AList.update key v props, ObjectPrototype)"
  by (simp add: setMember_def inObjectPrototype_def)

lemma merge_without_proto:
  "protoFreeProps source \<longrightarrow>
     deepMergeObject target source = (specMerge target source, ObjectPrototype)"
  "protoFreeProps entries \<longrightarrow> snd out = ObjectPrototype \<longrightarrow>
     mergeEntries out entries = (specMergeEntries (fst out) entries, ObjectPrototype)"
proof (induction target source and out entries rule: deepMergeObject_mergeEntries.induct)
  case (1 target source)
  then show ?case by simp
next
  case (2 out)
  then show ?case by (cases out) simp
next
  case (3 out key val rest)
  show ?case
  proof (intro impI)
    assume pf: "protoFreeProps ((key, val) # rest)" and op: "snd out = ObjectPrototype"
    obtain props where out: "out = (props, ObjectPrototype)" using op by (cases out) simp
    from pf have k: "key \<noteq> ''__proto__''" and pv: "protoFree val" and pr: "protoFreeProps rest"
      by simp_all
    let ?existing = "getMember out key"
    let ?c = "val \<noteq> JNull \<and> typeof (Some val) = ''object'' \<and> \<not> Array_isArray (Some val) \<and>
      ?existing \<noteq> Some JNull \<and> typeof ?existing = ''object'' \<and> \<not> Array_isArray ?existing"
    let ?m = "deepMergeObject (the ?existing) (propsOf val)"
    let ?S = "setMember out key (JObj (fst ?m)) (Some (ObjectValue (fst ?m) (snd ?m)))"
    let ?T = "setMember out key val (asPrototype val)"
    have g: "map_of props key = ?existing" by (simp add: out getMember_own[OF k])
    have code: "mergeEntries out ((key, val) # rest) =
      (if ?c then mergeEntries ?S rest else mergeEntries ?T rest)"
      by (simp only: mergeEntries.simps Let_def)
    have spec: "specMergeEntries props ((key, val) # rest) =
      (if ?c then specMergeEntries
                    (AList.update key (JObj (specMerge (the ?existing) (propsOf val))) props) rest
       else specMergeEntries (AList.update key val props) rest)"
      by (simp only: specMergeEntries.simps Let_def g)
    have "mergeEntries out ((key, val) # rest) =
            (specMergeEntries props ((key, val) # rest), ObjectPrototype)"
    proof (cases ?c)
      case True
      from True obtain s where s: "val = JObj s" using mergeable_iff by blast
      have pp: "protoFreeProps (propsOf val)" using pv by (simp add: s)
      have inner: "?m = (specMerge (the ?existing) (propsOf val), ObjectPrototype)"
        using "3.IH"(1)[OF refl True] pp by blast
      have "?S = setMember out key
                   (JObj (specMerge (the ?existing) (propsOf val)))
                   (Some (ObjectValue (specMerge (the ?existing) (propsOf val)) ObjectPrototype))"
        by (simp only: inner fst_conv snd_conv)
      then have set: "?S = (AList.update key (JObj (specMerge (the ?existing) (propsOf val))) props,
                            ObjectPrototype)"
        by (simp only: out setMember_own[OF k])
      have sndS: "snd ?S = ObjectPrototype" unfolding set by simp
      have "mergeEntries ?S rest = (specMergeEntries (fst ?S) rest, ObjectPrototype)"
        using "3.IH"(2)[OF refl True refl] pr sndS by blast
      also have "fst ?S = AList.update key (JObj (specMerge (the ?existing) (propsOf val))) props"
        unfolding set by simp
      finally have "mergeEntries ?S rest =
          (specMergeEntries (AList.update key (JObj (specMerge (the ?existing) (propsOf val))) props)
             rest, ObjectPrototype)" .
      then show ?thesis
        unfolding code spec if_P[OF True] .
    next
      case False
      have set: "?T = (AList.update key val props, ObjectPrototype)"
        unfolding out by (rule setMember_own[OF k])
      have sndT: "snd ?T = ObjectPrototype" unfolding set by simp
      have "mergeEntries ?T rest = (specMergeEntries (fst ?T) rest, ObjectPrototype)"
        using "3.IH"(3)[OF refl False] pr sndT by blast
      also have "fst ?T = AList.update key val props"
        unfolding set by simp
      finally have "mergeEntries ?T rest =
          (specMergeEntries (AList.update key val props) rest, ObjectPrototype)" .
      then show ?thesis
        unfolding code spec if_not_P[OF False] .
    qed
    then show "mergeEntries out ((key, val) # rest) =
            (specMergeEntries (fst out) ((key, val) # rest), ObjectPrototype)"
      by (simp only: out fst_conv)
  qed
qed

text \<open>
  On a patch without the key \<^verbatim>\<open>__proto__\<close>, \<^verbatim>\<open>deepMerge\<close> is the merge of the
  specification.
\<close>

lemma deepMerge_without_proto:
  "protoFreeProps source \<Longrightarrow> deepMerge target source = specMerge target source"
  using merge_without_proto(1)[of source target]
  by (simp only: deepMerge_def fst_conv)

lemma sansaPatch_protoFree: "protoFreeProps (sansaPatch apiKey)"
  by (simp add: sansaPatch_def SANSA_MODEL_ENTRY_def)

text \<open>
  For a patch without the key \<^verbatim>\<open>__proto__\<close>, as the patch of the installer is, and with
  distinct keys, the result holds at every key of the patch the recursive merge when the
  target and the patch both hold objects there, and the value of the patch in every other
  case.
\<close>

lemma deepMerge_patch_key:
  assumes "protoFreeProps patch" and "distinct (map fst patch)"
      and "map_of patch key = Some val"
  shows "(\<forall>t s. map_of target key = Some (JObj t) \<and> val = JObj s \<longrightarrow>
            map_of (deepMerge (JObj target) patch) key = Some (JObj (deepMerge (JObj t) s)))
       \<and> ((\<nexists>t s. map_of target key = Some (JObj t) \<and> val = JObj s) \<longrightarrow>
            map_of (deepMerge (JObj target) patch) key = Some val)"
proof -
  have inner: "val = JObj s \<Longrightarrow> deepMerge t' s = specMerge t' s" for s t'
  proof -
    assume v: "val = JObj s"
    from assms(3) have "(key, val) \<in> set patch" by (rule map_of_SomeD)
    with assms(1) have "protoFree val" by (induction patch) auto
    then show ?thesis by (simp add: v deepMerge_without_proto)
  qed
  from specMerge_patch_key[OF assms(2,3), of target] show ?thesis
    by (auto simp: deepMerge_without_proto[OF assms(1)] inner)
qed

text \<open>
  Claim C2 fails at the key \<^verbatim>\<open>__proto__\<close>. The target is \<^verbatim>\<open>{}\<close> and the patch is
  \<^verbatim>\<open>JSON.parse('{"__proto__": 5}')\<close>, whose one own property the loop finds.
  \<^verbatim>\<open>out["__proto__"] = 5\<close> calls the setter of \<^verbatim>\<open>Object.prototype\<close>, which ignores a
  number: the result is \<^verbatim>\<open>{}\<close>, where the claim has the patch value 5 at the key, as
  the merge of the specification does. When the patch holds a mapping at \<^verbatim>\<open>__proto__\<close>,
  the getter returns \<^verbatim>\<open>Object.prototype\<close>, a mapping is merged into a copy of it and
  becomes the prototype of the result: again the result has no property at the key, and
  a later key \<^verbatim>\<open>a\<close> of the patch is merged with the inherited value.
\<close>

theorem deepMerge_proto_key:
  "deepMerge (JObj []) [(''__proto__'', JNum 5)] = []
   \<and> specMerge (JObj []) [(''__proto__'', JNum 5)] = [(''__proto__'', JNum 5)]
   \<and> deepMerge (JObj [])
       [(''__proto__'', JObj [(''a'', JObj [(''x'', JNum 1)])]), (''a'', JObj [(''y'', JNum 2)])]
     = [(''a'', JObj [(''x'', JNum 1), (''y'', JNum 2)])]
   \<and> specMerge (JObj [])
       [(''__proto__'', JObj [(''a'', JObj [(''x'', JNum 1)])]), (''a'', JObj [(''y'', JNum 2)])]
     = [(''__proto__'', JObj [(''a'', JObj [(''x'', JNum 1)])]), (''a'', JObj [(''y'', JNum 2)])]"
  by (simp add: deepMerge_def getMember_def setMember_def inObjectPrototype_def)

section \<open>\<^verbatim>\<open>deepMerge\<close> writes to new objects only\<close>

lemma length_setProp: "length (setProp h a key v) = length h"
  by (simp add: setProp_def split: option.splits heap_object.splits)

lemma nth_setProp_other: "b \<noteq> a \<Longrightarrow> setProp h a key v ! b = h ! b"
  by (simp add: setProp_def split: option.splits heap_object.splits)

lemma heapAt_setProp:
  "heapAt h a = Some (HObject kvs) \<Longrightarrow>
   heapAt (setProp h a key v) a = Some (HObject (AList.update key v kvs))"
  by (auto simp: setProp_def heapAt_def split: if_splits)

text \<open>
  A call returns the address of the object it allocated and leaves every older object as
  it was; the loop writes to \<open>out\<close> only, and only under the keys of the entries.
\<close>

lemma merge_frame:
  "(deepMergeRef fuel h target source = Some (h', r) \<longrightarrow>
      r = VRef (length h) \<and> length h < length h' \<and> (\<forall>a < length h. h' ! a = h ! a))"
  "(mergeEntriesRef fuel h out entries = Some h'' \<longrightarrow>
      length h \<le> length h'' \<and> (\<forall>a < length h. a \<noteq> out \<longrightarrow> h'' ! a = h ! a) \<and>
      (\<forall>kvs. heapAt h out = Some (HObject kvs) \<longrightarrow>
         (\<exists>kvs'. heapAt h'' out = Some (HObject kvs') \<and>
            (\<forall>k. k \<notin> fst ` set entries \<longrightarrow> map_of kvs' k = map_of kvs k))))"
proof (induction fuel h target source and fuel h out entries arbitrary: h' r and h''
       rule: deepMergeRef_mergeEntriesRef.induct)
  case (1 h target source)
  show ?case by simp
next
  case (2 fuel h target source)
  show ?case
  proof
    assume a: "deepMergeRef (Suc fuel) h target source = Some (h', r)"
    let ?h1 = "h @ [HObject (ownProps h target)]"
    from a have m: "mergeEntriesRef fuel ?h1 (length h) (ownProps ?h1 source) = Some h'"
      and r: "r = VRef (length h)"
      by (auto simp: Let_def split: option.splits)
    from 2[OF refl refl, of h'] m
    have l: "length ?h1 \<le> length h'"
      and f: "\<forall>a < length ?h1. a \<noteq> length h \<longrightarrow> h' ! a = ?h1 ! a"
      by simp_all
    have "\<forall>a < length h. h' ! a = h ! a"
    proof (intro allI impI)
      fix a assume "a < length h"
      then have "h' ! a = ?h1 ! a" using f by simp
      also have "\<dots> = h ! a" using \<open>a < length h\<close> by (simp add: nth_append)
      finally show "h' ! a = h ! a" .
    qed
    with r l
    show "r = VRef (length h) \<and> length h < length h' \<and> (\<forall>a < length h. h' ! a = h ! a)"
      by simp
  qed
next
  case (3 fuel h out)
  show ?case by simp
next
  case (4 fuel h out key val rest)
  let ?existing = "map_of (ownProps h (VRef out)) key"
  let ?c = "val \<noteq> VNull \<and> typeofRef (Some val) = ''object'' \<and> \<not> isArrayRef h (Some val) \<and>
         ?existing \<noteq> Some VNull \<and> typeofRef ?existing = ''object'' \<and>
         \<not> isArrayRef h ?existing"
  show ?case
  proof
    assume a: "mergeEntriesRef fuel h out ((key, val) # rest) = Some h''"
    show "length h \<le> length h'' \<and> (\<forall>a < length h. a \<noteq> out \<longrightarrow> h'' ! a = h ! a) \<and>
      (\<forall>kvs. heapAt h out = Some (HObject kvs) \<longrightarrow>
         (\<exists>kvs'. heapAt h'' out = Some (HObject kvs') \<and>
            (\<forall>k. k \<notin> fst ` set ((key, val) # rest) \<longrightarrow> map_of kvs' k = map_of kvs k)))"
    proof (cases ?c)
      case True
      with a obtain hm merged where
        d: "deepMergeRef fuel h (the ?existing) val = Some (hm, merged)" and
        m: "mergeEntriesRef fuel (setProp hm out key merged) out rest = Some h''"
        by (auto simp: Let_def split: option.splits)
      from 4(1)[OF refl True, of hm merged] d
      have fr: "length h < length hm" "\<forall>a < length h. hm ! a = h ! a" by simp_all
      from 4(2)[OF refl True d refl, of h''] m
      have ih: "length (setProp hm out key merged) \<le> length h''"
           "\<forall>a < length (setProp hm out key merged).
               a \<noteq> out \<longrightarrow> h'' ! a = setProp hm out key merged ! a"
           "\<forall>kvs. heapAt (setProp hm out key merged) out = Some (HObject kvs) \<longrightarrow>
              (\<exists>kvs'. heapAt h'' out = Some (HObject kvs') \<and>
                 (\<forall>k. k \<notin> fst ` set rest \<longrightarrow> map_of kvs' k = map_of kvs k))"
        by simp_all
      have p1: "length h \<le> length h''" using fr(1) ih(1) by (simp add: length_setProp)
      have p2: "\<forall>a < length h. a \<noteq> out \<longrightarrow> h'' ! a = h ! a"
        using fr ih(2) by (simp add: nth_setProp_other length_setProp)
      have p3: "\<forall>kvs. heapAt h out = Some (HObject kvs) \<longrightarrow>
         (\<exists>kvs'. heapAt h'' out = Some (HObject kvs') \<and>
            (\<forall>k. k \<notin> fst ` set ((key, val) # rest) \<longrightarrow> map_of kvs' k = map_of kvs k))"
      proof (intro allI impI)
        fix kvs assume k: "heapAt h out = Some (HObject kvs)"
        then have "out < length h" by (auto simp: heapAt_def split: if_splits)
        with k fr have "heapAt hm out = Some (HObject kvs)" by (auto simp: heapAt_def)
        from heapAt_setProp[OF this] ih(3)
        obtain kvs' where k': "heapAt h'' out = Some (HObject kvs')"
          "\<forall>k. k \<notin> fst ` set rest \<longrightarrow>
               map_of kvs' k = map_of (AList.update key merged kvs) k"
          by blast
        then show "\<exists>kvs'. heapAt h'' out = Some (HObject kvs') \<and>
            (\<forall>k. k \<notin> fst ` set ((key, val) # rest) \<longrightarrow> map_of kvs' k = map_of kvs k)"
          by (auto simp: update_conv')
      qed
      from p1 p2 p3 show ?thesis by blast
    next
      case False
      with a have m: "mergeEntriesRef fuel (setProp h out key val) out rest = Some h''"
        by (simp add: Let_def)
      from 4(3)[OF refl False, of h''] m
      have ih: "length (setProp h out key val) \<le> length h''"
           "\<forall>a < length (setProp h out key val).
               a \<noteq> out \<longrightarrow> h'' ! a = setProp h out key val ! a"
           "\<forall>kvs. heapAt (setProp h out key val) out = Some (HObject kvs) \<longrightarrow>
              (\<exists>kvs'. heapAt h'' out = Some (HObject kvs') \<and>
                 (\<forall>k. k \<notin> fst ` set rest \<longrightarrow> map_of kvs' k = map_of kvs k))"
        by simp_all
      have p1: "length h \<le> length h''" using ih(1) by (simp add: length_setProp)
      have p2: "\<forall>a < length h. a \<noteq> out \<longrightarrow> h'' ! a = h ! a"
        using ih(2) by (simp add: nth_setProp_other length_setProp)
      have p3: "\<forall>kvs. heapAt h out = Some (HObject kvs) \<longrightarrow>
         (\<exists>kvs'. heapAt h'' out = Some (HObject kvs') \<and>
            (\<forall>k. k \<notin> fst ` set ((key, val) # rest) \<longrightarrow> map_of kvs' k = map_of kvs k))"
      proof (intro allI impI)
        fix kvs assume k: "heapAt h out = Some (HObject kvs)"
        from heapAt_setProp[OF this] ih(3)
        obtain kvs' where k': "heapAt h'' out = Some (HObject kvs')"
          "\<forall>k. k \<notin> fst ` set rest \<longrightarrow> map_of kvs' k = map_of (AList.update key val kvs) k"
          by blast
        then show "\<exists>kvs'. heapAt h'' out = Some (HObject kvs') \<and>
            (\<forall>k. k \<notin> fst ` set ((key, val) # rest) \<longrightarrow> map_of kvs' k = map_of kvs k)"
          by (auto simp: update_conv')
      qed
      from p1 p2 p3 show ?thesis by blast
    qed
  qed
qed

text \<open>
  Claim C9. For every pair of input documents, \<^verbatim>\<open>deepMerge\<close> mutates neither its target
  nor its patch: every object that was in the store before the call is the same after
  it, the result being a new object. For every key that is not a key of the patch, the
  result holds what the target held there, the identical value (for an object, the same
  reference); so only keys of the patch can differ between target and result.
\<close>

theorem deepMerge_frame:
  assumes "deepMergeRef fuel h target source = Some (h', result)"
      and "\<forall>a. source = VRef a \<longrightarrow> a < length h"
  shows "(\<forall>a < length h. h' ! a = h ! a)
       \<and> result = VRef (length h) \<and> length h < length h'
       \<and> (\<forall>k. k \<notin> fst ` set (ownProps h source) \<longrightarrow>
              map_of (ownProps h' result) k = map_of (ownProps h target) k)"
proof -
  obtain fuel' where fuel: "fuel = Suc fuel'"
    using assms by (cases fuel) simp_all
  let ?h1 = "h @ [HObject (ownProps h target)]"
  from assms have m: "mergeEntriesRef fuel' ?h1 (length h) (ownProps ?h1 source) = Some h'"
    by (auto simp: fuel Let_def split: option.splits)
  have src: "ownProps ?h1 source = ownProps h source"
    using assms(2)
    by (auto simp: ownProps_def heapAt_def nth_append
             split: ref_value.splits option.splits heap_object.splits)
  have at: "heapAt ?h1 (length h) = Some (HObject (ownProps h target))"
    by (simp add: heapAt_def)
  from merge_frame(2)[of fuel' ?h1 "length h" "ownProps ?h1 source" h'] m at
  obtain kvs' where k: "heapAt h' (length h) = Some (HObject kvs')"
    "\<forall>k. k \<notin> fst ` set (ownProps ?h1 source) \<longrightarrow> map_of kvs' k = map_of (ownProps h target) k"
    by blast
  from merge_frame(1)[of fuel h target source h' result] assms(1)
  have fr: "result = VRef (length h)" "length h < length h'" "\<forall>a < length h. h' ! a = h ! a"
    by simp_all
  have "ownProps h' result = kvs'"
    using k(1) by (simp add: ownProps_def fr(1))
  with k(2) fr show ?thesis by (simp add: src)
qed

theorem deepMerge_frame_witness:
  "deepMergeRef 2 sampleHeap (VRef 0) (VRef 3) =
     Some (sampleHeap @ [HObject [(''a'', VRef 6), (''keep'', VRef 2)],
                         HObject [(''b'', VNum 1), (''c'', VNum 2)]], VRef 5)
   \<and> (sampleHeap @ [HObject [(''a'', VRef 6), (''keep'', VRef 2)],
                     HObject [(''b'', VNum 1), (''c'', VNum 2)]]) ! 0 = sampleHeap ! 0
   \<and> map_of (ownProps (sampleHeap @ [HObject [(''a'', VRef 6), (''keep'', VRef 2)],
                     HObject [(''b'', VNum 1), (''c'', VNum 2)]]) (VRef 5)) ''keep''
       = map_of (ownProps sampleHeap (VRef 0)) ''keep''"
proof -
  have run: "deepMergeRef 2 sampleHeap (VRef 0) (VRef 3) =
     Some (sampleHeap @ [HObject [(''a'', VRef 6), (''keep'', VRef 2)],
                         HObject [(''b'', VNum 1), (''c'', VNum 2)]], VRef 5)"
    by code_simp
  have keys: "''keep'' \<notin> fst ` set (ownProps sampleHeap (VRef 3))"
    by (simp add: ownProps_def heapAt_def sampleHeap_def)
  have len: "0 < length sampleHeap"
    by (simp add: sampleHeap_def)
  have valid: "\<forall>a. VRef 3 = VRef a \<longrightarrow> a < length sampleHeap"
    by (simp add: sampleHeap_def)
  from deepMerge_frame[OF run valid] keys len run show ?thesis
    by blast
qed

section \<open>The two models of \<^verbatim>\<open>deepMerge\<close> agree\<close>

lemma reify_mono:
  "reify n h v = Some j \<Longrightarrow> n \<le> n' \<Longrightarrow> reify n' h v = Some j"
  "reifyProps n h kvs = Some js \<Longrightarrow> n \<le> n' \<Longrightarrow> reifyProps n' h kvs = Some js"
  "reifyList n h vs = Some ls \<Longrightarrow> n \<le> n' \<Longrightarrow> reifyList n' h vs = Some ls"
proof (induction n h v and n h kvs and n h vs arbitrary: j n' and js n' and ls n'
       rule: reify_reifyProps_reifyList.induct)
  case (6 n h a)
  from "6.prems"(2) obtain k where k: "n' = Suc k" "n \<le> k" by (cases n') auto
  show ?case
  proof (cases "heapAt h a")
    case None
    with "6.prems" show ?thesis by simp
  next
    case (Some obj)
    show ?thesis
    proof (cases obj)
      case (HObject kvs)
      with "6.prems"(1) Some obtain js where js: "reifyProps n h kvs = Some js" "j = JObj js"
        by auto
      from "6.IH"(1)[OF Some HObject js(1) k(2)] show ?thesis
        by (simp add: k Some HObject js(2))
    next
      case (HArray xs)
      with "6.prems"(1) Some obtain ls where ls: "reifyList n h xs = Some ls" "j = JArr ls"
        by auto
      from "6.IH"(2)[OF Some HArray ls(1) k(2)] show ?thesis
        by (simp add: k Some HArray ls(2))
    qed
  qed
next
  case (8 n h k v kvs)
  from "8.prems"(1) obtain j0 js0 where
    a: "reify n h v = Some j0" "reifyProps n h kvs = Some js0" "js = (k, j0) # js0"
    by (auto split: option.splits)
  from "8.IH"(1)[OF a(1) "8.prems"(2)] "8.IH"(2)[OF a(1) a(2) "8.prems"(2)]
  show ?case by (simp add: a(3))
next
  case (10 n h v vs)
  from "10.prems"(1) obtain j0 ls0 where
    a: "reify n h v = Some j0" "reifyList n h vs = Some ls0" "ls = j0 # ls0"
    by (auto split: option.splits)
  from "10.IH"(1)[OF a(1) "10.prems"(2)] "10.IH"(2)[OF a(1) a(2) "10.prems"(2)]
  show ?case by (simp add: a(3))
qed simp_all

lemma heapInv_nth:
  "heapInv h P \<Longrightarrow> a < length h \<Longrightarrow> validObject (length h) P (h ! a)"
  by (simp add: heapInv_def list_all_length)

lemma reify_frame:
  "heapInv h P \<Longrightarrow> length h \<le> length h' \<Longrightarrow> \<forall>a < length h. a \<notin> P \<longrightarrow> h' ! a = h ! a \<Longrightarrow>
   validValue (length h) P v \<Longrightarrow> reify n h' v = reify n h v"
  "heapInv h P \<Longrightarrow> length h \<le> length h' \<Longrightarrow> \<forall>a < length h. a \<notin> P \<longrightarrow> h' ! a = h ! a \<Longrightarrow>
   list_all (\<lambda>(k, v). validValue (length h) P v) kvs \<Longrightarrow>
   reifyProps n h' kvs = reifyProps n h kvs"
  "heapInv h P \<Longrightarrow> length h \<le> length h' \<Longrightarrow> \<forall>a < length h. a \<notin> P \<longrightarrow> h' ! a = h ! a \<Longrightarrow>
   list_all (validValue (length h) P) vs \<Longrightarrow> reifyList n h' vs = reifyList n h vs"
proof (induction n h v and n h kvs and n h vs
       rule: reify_reifyProps_reifyList.induct)
  case (6 n h a)
  note inv = "6.prems"(1) and len = "6.prems"(2) and same = "6.prems"(3)
  from "6.prems"(4) have a: "a < length h" "a \<notin> P" by (simp_all add: validValue_def)
  with same len have at: "heapAt h' a = Some (h ! a)" "heapAt h a = Some (h ! a)"
    by (auto simp: heapAt_def)
  have v: "validObject (length h) P (h ! a)" using heapInv_nth[OF inv a(1)] .
  show ?case
  proof (cases "h ! a")
    case (HObject kvs)
    with v have "list_all (\<lambda>(k, v). validValue (length h) P v) kvs" by (simp add: validObject_def)
    from "6.IH"(1)[OF at(2)[unfolded HObject] refl inv len same this] show ?thesis
      by (simp add: at HObject)
  next
    case (HArray xs)
    with v have "list_all (validValue (length h) P) xs" by (simp add: validObject_def)
    from "6.IH"(2)[OF at(2)[unfolded HArray] refl inv len same this] show ?thesis
      by (simp add: at HArray)
  qed
next
  case (8 n h k v kvs)
  note inv = "8.prems"(1) and len = "8.prems"(2) and same = "8.prems"(3)
  from "8.prems"(4) have p: "validValue (length h) P v"
    "list_all (\<lambda>(k, v). validValue (length h) P v) kvs" by simp_all
  show ?case
  proof (cases "reify n h v")
    case None
    with "8.IH"(1)[OF inv len same p(1)] show ?thesis by simp
  next
    case (Some j)
    with "8.IH"(1)[OF inv len same p(1)] "8.IH"(2)[OF Some inv len same p(2)] show ?thesis by simp
  qed
next
  case (10 n h v vs)
  note inv = "10.prems"(1) and len = "10.prems"(2) and same = "10.prems"(3)
  from "10.prems"(4) have p: "validValue (length h) P v" "list_all (validValue (length h) P) vs"
    by simp_all
  show ?case
  proof (cases "reify n h v")
    case None
    with "10.IH"(1)[OF inv len same p(1)] show ?thesis by simp
  next
    case (Some j)
    with "10.IH"(1)[OF inv len same p(1)] "10.IH"(2)[OF Some inv len same p(2)] show ?thesis by simp
  qed
qed simp_all

lemma reifyProps_map_of:
  "reifyProps n h kvs = Some js \<Longrightarrow>
   map_of js k = (case map_of kvs k of None \<Rightarrow> None | Some v \<Rightarrow> reify n h v)"
proof (induction kvs arbitrary: js)
  case Nil
  then show ?case by simp
next
  case (Cons kv kvs)
  obtain k0 v0 where kv: "kv = (k0, v0)" by (cases kv)
  from Cons.prems obtain j0 js0 where
    a: "reify n h v0 = Some j0" "reifyProps n h kvs = Some js0" "js = (k0, j0) # js0"
    by (auto simp: kv split: option.splits)
  from Cons.IH[OF a(2)] show ?case by (simp add: kv a)
qed

lemma reifyProps_update:
  "reifyProps n h kvs = Some js \<Longrightarrow> reify n h v = Some j \<Longrightarrow>
   reifyProps n h (AList.update k v kvs) = Some (AList.update k j js)"
proof (induction kvs arbitrary: js)
  case Nil
  then show ?case by simp
next
  case (Cons kv kvs)
  obtain k0 v0 where kv: "kv = (k0, v0)" by (cases kv)
  from Cons.prems(1) obtain j0 js0 where
    a: "reify n h v0 = Some j0" "reifyProps n h kvs = Some js0" "js = (k0, j0) # js0"
    by (auto simp: kv split: option.splits)
  from Cons.IH[OF a(2) Cons.prems(2)] show ?case
    using Cons.prems(2) by (simp add: kv a)
qed

lemma reifyProps_zip:
  "reifyList n h xs = Some ls \<Longrightarrow> length ks = length xs \<Longrightarrow>
   reifyProps n h (zip ks xs) = Some (zip ks ls)"
proof (induction xs arbitrary: ls ks)
  case Nil
  then show ?case by simp
next
  case (Cons x xs)
  from Cons.prems(2) obtain k ks' where ks: "ks = k # ks'" "length ks' = length xs"
    by (cases ks) auto
  from Cons.prems(1) obtain j0 ls0 where
    a: "reify n h x = Some j0" "reifyList n h xs = Some ls0" "ls = j0 # ls0"
    by (auto split: option.splits)
  from Cons.IH[OF a(2) ks(2)] show ?case by (simp add: ks a)
qed

lemma reifyList_length: "reifyList n h xs = Some ls \<Longrightarrow> length ls = length xs"
  by (induction xs arbitrary: ls) (auto split: option.splits)

lemma reifyList_chars: "reifyList n h (map (\<lambda>c. VStr [c]) s) = Some (map (\<lambda>c. JStr [c]) s)"
  by (induction s) simp_all

lemma reify_spread:
  assumes "reify m h target = Some jt"
  shows "\<exists>m'. reifyProps m' h (ownProps h target) = Some (spread jt)"
proof (cases target)
  case (VRef a)
  with assms obtain m0 where m: "m = Suc m0" by (cases m) auto
  show ?thesis
  proof (cases "heapAt h a")
    case None
    with assms VRef m show ?thesis by simp
  next
    case (Some obj)
    show ?thesis
    proof (cases obj)
      case (HObject kvs)
      with assms VRef m Some obtain js where "reifyProps m0 h kvs = Some js" "jt = JObj js"
        by auto
      then show ?thesis by (auto simp: ownProps_def VRef Some HObject)
    next
      case (HArray xs)
      with assms VRef m Some obtain ls where ls: "reifyList m0 h xs = Some ls" "jt = JArr ls"
        by auto
      from reifyProps_zip[OF ls(1), of "map decimal [0..<length xs]"] reifyList_length[OF ls(1)]
      show ?thesis by (auto simp: ownProps_def VRef Some HArray ls(2))
    qed
  qed
next
  case (VStr s)
  with assms have jt: "jt = JStr s" by simp
  have "reifyProps 0 h (zip (map decimal [0..<length s]) (map (\<lambda>c. VStr [c]) s)) =
        Some (zip (map decimal [0..<length s]) (map (\<lambda>c. JStr [c]) s))"
    by (rule reifyProps_zip[OF reifyList_chars]) simp
  then show ?thesis by (auto simp: ownProps_def VStr jt)
qed (use assms in \<open>auto simp: ownProps_def\<close>)

lemma validValue_weaken:
  "validValue L P v \<Longrightarrow> L \<le> L' \<Longrightarrow> \<forall>p \<in> P'. p \<in> P \<or> L \<le> p \<Longrightarrow> validValue L' P' v"
  by (cases v) (auto simp: validValue_def)

lemma validObject_weaken:
  "validObject L P obj \<Longrightarrow> L \<le> L' \<Longrightarrow> \<forall>p \<in> P'. p \<in> P \<or> L \<le> p \<Longrightarrow> validObject L' P' obj"
  by (cases obj) (auto simp: validObject_def list_all_iff intro: validValue_weaken)

lemma valid_ownProps:
  assumes "heapInv h P" "validValue (length h) P v"
  shows "list_all (\<lambda>(k, v). validValue (length h) P v) (ownProps h v)"
proof (cases v)
  case (VRef a)
  with assms(2) have a: "a < length h" by (simp add: validValue_def)
  from heapInv_nth[OF assms(1) a] show ?thesis
    by (cases "h ! a")
       (auto simp: ownProps_def VRef heapAt_def a validObject_def list_all_iff dest: set_zip_rightD)
next
  case (VStr s)
  then show ?thesis
    by (auto simp: ownProps_def list_all_iff validValue_def dest!: set_zip_rightD)
qed (simp_all add: ownProps_def)

lemma heapInv_alloc:
  assumes "heapInv h P" "list_all (\<lambda>(k, v). validValue (length h) P v) kvs"
  shows "heapInv (h @ [HObject kvs]) (insert (length h) P)"
proof -
  have w: "validObject (length h) P obj \<Longrightarrow> validObject (Suc (length h)) (insert (length h) P) obj" for obj
    by (rule validObject_weaken) auto
  have "validObject (length h) P (HObject kvs)" using assms(2) by (simp add: validObject_def)
  with assms(1) show ?thesis
    by (auto simp: heapInv_def list_all_iff intro: w less_SucI)
qed

lemma heapInv_release: "heapInv h (insert a P) \<Longrightarrow> heapInv h P"
  by (auto simp: heapInv_def list_all_iff intro: validObject_weaken)

lemma heapInv_setProp:
  assumes "heapInv h P" "validValue (length h) P v"
  shows "heapInv (setProp h a key v) P"
proof (cases "heapAt h a")
  case None
  with assms show ?thesis by (simp add: setProp_def)
next
  case (Some obj)
  then have a: "a < length h" "h ! a = obj" by (auto simp: heapAt_def split: if_splits)
  show ?thesis
  proof (cases obj)
    case (HArray xs)
    with Some assms show ?thesis by (simp add: setProp_def)
  next
    case (HObject kvs)
    from heapInv_nth[OF assms(1) a(1)] have "list_all (\<lambda>(k, v). validValue (length h) P v) kvs"
      by (simp add: a(2) HObject validObject_def)
    with assms(2) have "list_all (\<lambda>(k, v). validValue (length h) P v) (AList.update key v kvs)"
      by (induction kvs) auto
    then have n: "validObject (length h) P (HObject (AList.update key v kvs))"
      by (simp add: validObject_def)
    have "list_all (validObject (length h) P) (h[a := HObject (AList.update key v kvs)])"
      using assms(1) n by (auto simp: heapInv_def list_all_iff dest!: set_update_subset_insert[THEN subsetD])
    with assms(1) show ?thesis
      by (simp add: setProp_def Some HObject heapInv_def)
  qed
qed

lemma object_test:
  "reify n h v = Some j \<Longrightarrow>
   (v \<noteq> VNull \<and> typeofRef (Some v) = ''object'' \<and> \<not> isArrayRef h (Some v)) \<longleftrightarrow> (\<exists>s. j = JObj s)"
proof (cases v)
  case (VRef a)
  assume r: "reify n h v = Some j"
  with VRef obtain n0 where n: "n = Suc n0" by (cases n) auto
  from r show ?thesis
    by (auto simp: VRef n isArrayRef_def split: option.splits heap_object.splits)
qed auto

lemma merge_refines:
  "(\<forall>P m jt js.
      heapInv h P \<longrightarrow> validValue (length h) P target \<longrightarrow> validValue (length h) P source \<longrightarrow>
      reify m h target = Some jt \<longrightarrow> reify fuel h source = Some (JObj js) \<longrightarrow>
      (\<exists>h' r m'. deepMergeRef fuel h target source = Some (h', r) \<and> heapInv h' P \<and>
                  reify m' h' r = Some (JObj (specMerge jt js))))"
  "(\<forall>P m kvs jout jes.
      heapInv h (insert out P) \<longrightarrow> heapAt h out = Some (HObject kvs) \<longrightarrow>
      list_all (\<lambda>(k, v). validValue (length h) (insert out P) v) entries \<longrightarrow>
      reifyProps m h kvs = Some jout \<longrightarrow> reifyProps fuel h entries = Some jes \<longrightarrow>
      (\<exists>h'' kvs' m'. mergeEntriesRef fuel h out entries = Some h'' \<and>
                      heapInv h'' (insert out P) \<and> heapAt h'' out = Some (HObject kvs') \<and>
                      reifyProps m' h'' kvs' = Some (specMergeEntries jout jes)))"
proof (induction fuel h target source and fuel h out entries
       rule: deepMergeRef_mergeEntriesRef.induct)
  case (1 h target source)
  show ?case
  proof (intro allI impI)
    fix P m jt js
    assume "reify 0 h source = Some (JObj js)"
    then have False by (cases source) simp_all
    then show "\<exists>h' r m'. deepMergeRef 0 h target source = Some (h', r) \<and> heapInv h' P \<and>
                  reify m' h' r = Some (JObj (specMerge jt js))" ..
  qed
next
  case (2 fuel h target source)
  show ?case
  proof (intro allI impI)
    fix P m jt js
    assume inv: "heapInv h P" and vt: "validValue (length h) P target"
      and vs: "validValue (length h) P source"
      and rt: "reify m h target = Some jt" and rs: "reify (Suc fuel) h source = Some (JObj js)"
    let ?out = "length h"
    let ?h1 = "h @ [HObject (ownProps h target)]"
    from rs obtain a kvs where src: "source = VRef a" "heapAt h a = Some (HObject kvs)"
        "reifyProps fuel h kvs = Some js"
      by (cases source) (auto split: option.splits heap_object.splits)
    from src(2) have a: "a < length h" by (auto simp: heapAt_def split: if_splits)
    have entries: "ownProps ?h1 source = kvs"
      using src(2) a by (simp add: ownProps_def src(1) heapAt_def nth_append split: if_splits)
    have kvs_eq: "ownProps h source = kvs"
      using src(2) by (simp add: ownProps_def src(1))
    have inv1: "heapInv ?h1 (insert ?out P)"
      by (rule heapInv_alloc[OF inv valid_ownProps[OF inv vt]])
    have at1: "heapAt ?h1 ?out = Some (HObject (ownProps h target))"
      by (simp add: heapAt_def)
    have same1: "\<forall>b < length h. b \<notin> P \<longrightarrow> ?h1 ! b = h ! b"
      by (simp add: nth_append)
    have ven: "list_all (\<lambda>(k, v). validValue (length ?h1) (insert ?out P) v) kvs"
    proof -
      have "list_all (\<lambda>(k, v). validValue (length h) P v) kvs"
        using valid_ownProps[OF inv vs] by (simp add: kvs_eq)
      then show ?thesis
        by (auto simp: list_all_iff intro: validValue_weaken)
    qed
    from reify_spread[OF rt] obtain m0 where
      m0: "reifyProps m0 h (ownProps h target) = Some (spread jt)" by blast
    have rp1: "reifyProps m0 ?h1 (ownProps h target) = Some (spread jt)"
      using reify_frame(2)[OF inv _ same1 valid_ownProps[OF inv vt], of m0] m0 by simp
    have re1: "reifyProps fuel ?h1 kvs = Some js"
    proof -
      have "list_all (\<lambda>(k, v). validValue (length h) P v) kvs"
        using valid_ownProps[OF inv vs] by (simp add: kvs_eq)
      from reify_frame(2)[OF inv _ same1 this, of fuel] src(3) show ?thesis by simp
    qed
    have ven': "list_all (\<lambda>(k, v). validValue (length ?h1) (insert ?out P) v) (ownProps ?h1 source)"
      using ven by (simp only: entries)
    have re1': "reifyProps fuel ?h1 (ownProps ?h1 source) = Some js"
      using re1 by (simp only: entries)
    from 2[OF refl refl, rule_format, OF inv1 at1 ven' rp1 re1']
    obtain h'' kvs' m' where
      run: "mergeEntriesRef fuel ?h1 ?out (ownProps ?h1 source) = Some h''" and
      inv'': "heapInv h'' (insert ?out P)" and
      at'': "heapAt h'' ?out = Some (HObject kvs')" and
      rp'': "reifyProps m' h'' kvs' = Some (specMergeEntries (spread jt) js)"
      by auto
    have d: "deepMergeRef (Suc fuel) h target source = Some (h'', VRef ?out)"
      using run by (simp add: Let_def)
    have r: "reify (Suc m') h'' (VRef ?out) = Some (JObj (specMerge jt js))"
      using at'' rp'' by simp
    from d heapInv_release[OF inv''] r
    show "\<exists>h' r m'. deepMergeRef (Suc fuel) h target source = Some (h', r) \<and> heapInv h' P \<and>
                  reify m' h' r = Some (JObj (specMerge jt js))"
      by blast
  qed
next
  case (3 fuel h out)
  show ?case by auto
next
  case (4 fuel h out key val rest)
  let ?existing = "map_of (ownProps h (VRef out)) key"
  let ?c = "val \<noteq> VNull \<and> typeofRef (Some val) = ''object'' \<and> \<not> isArrayRef h (Some val) \<and>
         ?existing \<noteq> Some VNull \<and> typeofRef ?existing = ''object'' \<and>
         \<not> isArrayRef h ?existing"
  show ?case
  proof (intro allI impI)
    fix P m kvs jout jes
    assume inv: "heapInv h (insert out P)" and at: "heapAt h out = Some (HObject kvs)"
      and ven: "list_all (\<lambda>(k, v). validValue (length h) (insert out P) v) ((key, val) # rest)"
      and rp: "reifyProps m h kvs = Some jout"
      and re: "reifyProps fuel h ((key, val) # rest) = Some jes"
    from at have out: "out < length h" "h ! out = HObject kvs"
      by (auto simp: heapAt_def split: if_splits)
    have props: "ownProps h (VRef out) = kvs" using at by (simp add: ownProps_def)
    from re obtain jv jrest where
      jv: "reify fuel h val = Some jv" and jrest: "reifyProps fuel h rest = Some jrest"
      and jes: "jes = (key, jv) # jrest"
      by (auto split: option.splits)
    from ven have vval: "validValue (length h) (insert out P) val"
      and vrest: "list_all (\<lambda>(k, v). validValue (length h) (insert out P) v) rest"
      by simp_all
    have vkvs: "list_all (\<lambda>(k, v). validValue (length h) (insert out P) v) kvs"
      using heapInv_nth[OF inv out(1)] by (simp add: out(2) validObject_def)
    have ex_j: "map_of jout key = (case map_of kvs key of None \<Rightarrow> None | Some v \<Rightarrow> reify m h v)"
      by (rule reifyProps_map_of[OF rp])
    have pend: "\<forall>p \<in> insert out P. p < length h" using inv by (simp add: heapInv_def)
    have cond: "?c \<longleftrightarrow> (\<exists>s t. jv = JObj s \<and> map_of jout key = Some (JObj t))"
    proof (cases "map_of kvs key")
      case None
      then show ?thesis by (simp add: props ex_j)
    next
      case (Some e)
      show ?thesis
      proof (cases "reify m h e")
        case None
        with Some have "map_of jout key = None" by (simp add: ex_j)
        moreover from rp Some None have False
        proof (induction kvs arbitrary: jout)
          case Nil
          then show ?case by simp
        next
          case (Cons x xs)
          then show ?case by (cases x) (auto split: option.splits if_splits)
        qed
        ultimately show ?thesis by simp
      next
        case (Some je)
        from object_test[OF jv] object_test[OF Some] \<open>map_of kvs key = Some e\<close> Some
        show ?thesis by (auto simp: props ex_j)
      qed
    qed
    show "\<exists>h'' kvs' m'. mergeEntriesRef fuel h out ((key, val) # rest) = Some h'' \<and>
                      heapInv h'' (insert out P) \<and> heapAt h'' out = Some (HObject kvs') \<and>
                      reifyProps m' h'' kvs' = Some (specMergeEntries jout jes)"
    proof (cases ?c)
      case True
      with cond obtain s t where st: "jv = JObj s" "map_of jout key = Some (JObj t)" by blast
      from st(2) ex_j obtain e where e: "map_of kvs key = Some e" "reify m h e = Some (JObj t)"
        by (auto split: option.splits)
      have ve: "validValue (length h) (insert out P) e"
        using vkvs map_of_SomeD[OF e(1)] by (auto simp: list_all_iff)
      have the_e: "the ?existing = e" by (simp add: props e(1))
      have ve': "validValue (length h) (insert out P) (the ?existing)"
        using ve by (simp only: the_e)
      have re': "reify m h (the ?existing) = Some (JObj t)"
        using e(2) by (simp only: the_e)
      from 4(1)[OF refl True, rule_format, OF inv ve' vval re' jv[unfolded st(1)]]
      obtain hm merged m1 where
        d: "deepMergeRef fuel h (the ?existing) val = Some (hm, merged)" and
        invm: "heapInv hm (insert out P)" and
        rm: "reify m1 hm merged = Some (JObj (specMerge (JObj t) s))"
        by auto
      from merge_frame(1)[of fuel h "the ?existing" val hm merged] d
      have fr: "merged = VRef (length h)" "length h < length hm" "\<forall>a < length h. hm ! a = h ! a"
        by simp_all
      let ?h2 = "setProp hm out key merged"
      let ?M = "max m m1"
      have atm: "heapAt hm out = Some (HObject kvs)"
        using out fr by (simp add: heapAt_def)
      have at2: "heapAt ?h2 out = Some (HObject (AList.update key merged kvs))"
        by (rule heapAt_setProp[OF atm])
      have vmerged: "validValue (length hm) (insert out P) merged"
        using fr(1,2) pend by (auto simp: validValue_def)
      have inv2: "heapInv ?h2 (insert out P)"
        by (rule heapInv_setProp[OF invm vmerged])
      have same_h: "\<forall>a < length h. a \<notin> insert out P \<longrightarrow> ?h2 ! a = h ! a"
        using fr(3) by (simp add: nth_setProp_other)
      have same_m: "\<forall>a < length hm. a \<notin> insert out P \<longrightarrow> ?h2 ! a = hm ! a"
        by (simp add: nth_setProp_other)
      have len_h: "length h \<le> length ?h2" using fr(2) by (simp add: length_setProp)
      have rk: "reifyProps ?M ?h2 kvs = Some jout"
        using reify_frame(2)[OF inv len_h same_h vkvs, of ?M] reify_mono(2)[OF rp, of ?M]
        by simp
      have rmg: "reify ?M ?h2 merged = Some (JObj (specMerge (JObj t) s))"
        using reify_frame(1)[OF invm _ same_m vmerged, of ?M] reify_mono(1)[OF rm, of ?M]
        by (simp add: length_setProp)
      have rp2: "reifyProps ?M ?h2 (AList.update key merged kvs) =
                   Some (AList.update key (JObj (specMerge (JObj t) s)) jout)"
        by (rule reifyProps_update[OF rk rmg])
      have vrest2: "list_all (\<lambda>(k, v). validValue (length ?h2) (insert out P) v) rest"
        using vrest len_h by (auto simp: list_all_iff intro: validValue_weaken)
      have rrest2: "reifyProps fuel ?h2 rest = Some jrest"
        using reify_frame(2)[OF inv len_h same_h vrest, of fuel] jrest by simp
      from 4(2)[OF refl True d refl, rule_format, OF inv2 at2 vrest2 rp2 rrest2]
      obtain h'' kvs' m' where
        run: "mergeEntriesRef fuel ?h2 out rest = Some h''" and
        res: "heapInv h'' (insert out P)" "heapAt h'' out = Some (HObject kvs')"
             "reifyProps m' h'' kvs' =
                Some (specMergeEntries (AList.update key (JObj (specMerge (JObj t) s)) jout) jrest)"
        by blast
      have step: "mergeEntriesRef fuel h out ((key, val) # rest) = Some h''"
        using True d run by (simp add: Let_def)
      have pure: "specMergeEntries jout jes =
                  specMergeEntries (AList.update key (JObj (specMerge (JObj t) s)) jout) jrest"
        unfolding jes specMergeEntries_Cons by (simp add: mergeValue_def st del: specMerge.simps)
      from step res show ?thesis unfolding pure by blast
    next
      case False
      with cond have nst: "\<not> (\<exists>s t. jv = JObj s \<and> map_of jout key = Some (JObj t))" by blast
      let ?h2 = "setProp h out key val"
      let ?M = "max m fuel"
      have at2: "heapAt ?h2 out = Some (HObject (AList.update key val kvs))"
        by (rule heapAt_setProp[OF at])
      have inv2: "heapInv ?h2 (insert out P)"
        by (rule heapInv_setProp[OF inv vval])
      have same_h: "\<forall>a < length h. a \<notin> insert out P \<longrightarrow> ?h2 ! a = h ! a"
        by (simp add: nth_setProp_other)
      have len_h: "length h \<le> length ?h2" by (simp add: length_setProp)
      have rk: "reifyProps ?M ?h2 kvs = Some jout"
        using reify_frame(2)[OF inv len_h same_h vkvs, of ?M] reify_mono(2)[OF rp, of ?M]
        by simp
      have rv: "reify ?M ?h2 val = Some jv"
        using reify_frame(1)[OF inv len_h same_h vval, of ?M] reify_mono(1)[OF jv, of ?M]
        by simp
      have rp2: "reifyProps ?M ?h2 (AList.update key val kvs) = Some (AList.update key jv jout)"
        by (rule reifyProps_update[OF rk rv])
      have vrest2: "list_all (\<lambda>(k, v). validValue (length ?h2) (insert out P) v) rest"
        using vrest by (simp add: length_setProp)
      have rrest2: "reifyProps fuel ?h2 rest = Some jrest"
        using reify_frame(2)[OF inv len_h same_h vrest, of fuel] jrest by simp
      from 4(3)[OF refl False, rule_format, OF inv2 at2 vrest2 rp2 rrest2]
      obtain h'' kvs' m' where
        run: "mergeEntriesRef fuel ?h2 out rest = Some h''" and
        res: "heapInv h'' (insert out P)" "heapAt h'' out = Some (HObject kvs')"
             "reifyProps m' h'' kvs' = Some (specMergeEntries (AList.update key jv jout) jrest)"
        by blast
      have eq: "mergeEntriesRef fuel h out ((key, val) # rest) =
          (if ?c then (case deepMergeRef fuel h (the ?existing) val of
                         None \<Rightarrow> None
                       | Some (h', merged) \<Rightarrow>
                           mergeEntriesRef fuel (setProp h' out key merged) out rest)
           else mergeEntriesRef fuel ?h2 out rest)"
        by (simp only: mergeEntriesRef.simps Let_def)
      have step: "mergeEntriesRef fuel h out ((key, val) # rest) = Some h''"
        unfolding eq if_not_P[OF False] by (rule run)
      have mv: "mergeValue (map_of jout key) jv = jv"
        using nst by (auto simp: mergeValue_def split: option.splits json.splits)
      have pure: "specMergeEntries jout jes = specMergeEntries (AList.update key jv jout) jrest"
        unfolding jes specMergeEntries_Cons mv ..
      from step res show ?thesis unfolding pure by blast
    qed
  qed
qed

text \<open>
  In a store without dangling references, for a target and a patch that denote documents
  (so are finite and free of cycles), \<^verbatim>\<open>deepMerge\<close> on the store returns when its fuel
  is the depth the patch was read to, and the object it returns denotes the document
  that the merge of the specification gives; when the patch holds the key \<^verbatim>\<open>__proto__\<close>
  nowhere, that is the document that \<^verbatim>\<open>deepMerge\<close> on documents computes.
\<close>

theorem deepMergeRef_refines:
  assumes "heapInv h {}"
      and "validValue (length h) {} target" and "validValue (length h) {} source"
      and "reify m h target = Some jt" and "reify fuel h source = Some (JObj js)"
  shows "(\<exists>h' r m'. deepMergeRef fuel h target source = Some (h', r) \<and>
                     reify m' h' r = Some (JObj (specMerge jt js)))
       \<and> (protoFreeProps js \<longrightarrow>
            (\<exists>h' r m'. deepMergeRef fuel h target source = Some (h', r) \<and>
                        reify m' h' r = Some (JObj (deepMerge jt js))))"
proof -
  have spec: "\<exists>h' r m'. deepMergeRef fuel h target source = Some (h', r) \<and>
                        reify m' h' r = Some (JObj (specMerge jt js))"
    using merge_refines(1)[of h target source fuel, rule_format, OF assms] by blast
  then show ?thesis by (simp add: deepMerge_without_proto)
qed

section \<open>The backup of the configuration file\<close>

lemma dirname_CONFIG_PATH: "dirname (CONFIG_PATH home) = OPENCLAW_DIR home"
  by (simp add: dirname_def CONFIG_PATH_def OPENCLAW_DIR_def path_join_def Let_def butlast_append)

lemma backup_neq_config: "backupPath home now \<noteq> CONFIG_PATH home"
  by (simp add: backupPath_def)

lemma backup_neq_dir: "backupPath home now \<noteq> OPENCLAW_DIR home"
  by (simp add: backupPath_def CONFIG_PATH_def OPENCLAW_DIR_def path_join_def)

lemma config_neq_dir: "CONFIG_PATH home \<noteq> OPENCLAW_DIR home"
  by (simp add: CONFIG_PATH_def path_join_def)

lemmas path_distinct =
  backup_neq_config backup_neq_dir config_neq_dir
  backup_neq_config[symmetric] backup_neq_dir[symmetric] config_neq_dir[symmetric]

text \<open>
  Claim C3. For every run of the config merge against a pre-existing configuration file
  (a run whose file operations succeed: the backup path is no directory, the
  \<^verbatim>\<open>.openclaw\<close> directory no regular file), the backup step, which comes before the
  write of the merged document, copies the file to \<^verbatim>\<open><original-path>.bak.<epoch-millis>\<close>:
  after it, and after the whole run, that path holds the content the configuration file
  had before the merge, the configuration file still holds it when the write starts, and
  no path other than the backup, the configuration file and its directory has changed, so
  exactly one backup is made. When no configuration file existed, the backup step changes
  nothing and the run changes the configuration file and its directory only: no backup
  file is created.
\<close>

theorem backup_before_write:
  "(fs (CONFIG_PATH home) = Some (RegularFile old) \<and>
    fs (backupPath home now) \<noteq> Some Directory \<and>
    (\<forall>text. fs (OPENCLAW_DIR home) \<noteq> Some (RegularFile text)) \<longrightarrow>
      (\<exists>fs1 fs'.
         backupStep home now fs = Inr fs1 \<and>
         fs1 (backupPath home now) = Some (RegularFile old) \<and>
         fs1 (CONFIG_PATH home) = Some (RegularFile old) \<and>
         (\<forall>p. p \<noteq> backupPath home now \<longrightarrow> fs1 p = fs p) \<and>
         patchOpenClawConfig E home now apiKey fs = Inr fs' \<and>
         writeJson E (CONFIG_PATH home)
           (JObj (deepMerge (nullishOr (Some (readJson E fs (CONFIG_PATH home))) (JObj []))
                    (sansaPatch apiKey))) fs1 = Inr fs' \<and>
         fs' (backupPath home now) = Some (RegularFile old) \<and>
         (\<forall>p. p \<noteq> backupPath home now \<and> p \<noteq> CONFIG_PATH home \<and> p \<noteq> OPENCLAW_DIR home \<longrightarrow>
              fs' p = fs p)))
   \<and> (fs (CONFIG_PATH home) = None \<and>
       (\<forall>text. fs (OPENCLAW_DIR home) \<noteq> Some (RegularFile text)) \<longrightarrow>
        backupStep home now fs = Inr fs \<and>
        (\<exists>fs'. patchOpenClawConfig E home now apiKey fs = Inr fs' \<and>
           (\<forall>p. p \<noteq> CONFIG_PATH home \<and> p \<noteq> OPENCLAW_DIR home \<longrightarrow> fs' p = fs p)))"
proof (intro conjI impI)
  assume a: "fs (CONFIG_PATH home) = Some (RegularFile old) \<and>
    fs (backupPath home now) \<noteq> Some Directory \<and>
    (\<forall>text. fs (OPENCLAW_DIR home) \<noteq> Some (RegularFile text))"
  let ?merged = "JObj (deepMerge (nullishOr (Some (readJson E fs (CONFIG_PATH home))) (JObj []))
                    (sansaPatch apiKey))"
  let ?fs1 = "fs(backupPath home now \<mapsto> RegularFile old)"
  let ?fs' = "?fs1(OPENCLAW_DIR home \<mapsto> Directory,
                   CONFIG_PATH home \<mapsto> RegularFile (JSON_stringify E ?merged @ [CHR 0x0A]))"
  have b: "backupStep home now fs = Inr ?fs1"
    using a by (auto simp: backupStep_def existsSync_def copyFileSync_def
                     split: option.splits fsentry.splits)
  have w: "writeJson E (CONFIG_PATH home) ?merged ?fs1 = Inr ?fs'"
    using a by (auto simp: writeJson_def dirname_CONFIG_PATH mkdirSync_def writeFileSync_def
                  path_distinct split: option.splits fsentry.splits)
  have p: "patchOpenClawConfig E home now apiKey fs = Inr ?fs'"
    unfolding patchOpenClawConfig_def Let_def b using w by simp
  show "\<exists>fs1 fs'.
         backupStep home now fs = Inr fs1 \<and>
         fs1 (backupPath home now) = Some (RegularFile old) \<and>
         fs1 (CONFIG_PATH home) = Some (RegularFile old) \<and>
         (\<forall>p. p \<noteq> backupPath home now \<longrightarrow> fs1 p = fs p) \<and>
         patchOpenClawConfig E home now apiKey fs = Inr fs' \<and>
         writeJson E (CONFIG_PATH home) ?merged fs1 = Inr fs' \<and>
         fs' (backupPath home now) = Some (RegularFile old) \<and>
         (\<forall>p. p \<noteq> backupPath home now \<and> p \<noteq> CONFIG_PATH home \<and> p \<noteq> OPENCLAW_DIR home \<longrightarrow>
              fs' p = fs p)"
    apply (rule exI[of _ ?fs1], rule exI[of _ ?fs'])
    using a b w p
    by (simp add: path_distinct)
next
  assume a: "fs (CONFIG_PATH home) = None \<and>
       (\<forall>text. fs (OPENCLAW_DIR home) \<noteq> Some (RegularFile text))"
  then show "backupStep home now fs = Inr fs"
    by (simp add: backupStep_def existsSync_def)
next
  assume a: "fs (CONFIG_PATH home) = None \<and>
       (\<forall>text. fs (OPENCLAW_DIR home) \<noteq> Some (RegularFile text))"
  then have b: "backupStep home now fs = Inr fs"
    by (simp add: backupStep_def existsSync_def)
  let ?merged = "JObj (deepMerge (nullishOr (Some (readJson E fs (CONFIG_PATH home))) (JObj []))
                    (sansaPatch apiKey))"
  let ?fs' = "fs(OPENCLAW_DIR home \<mapsto> Directory,
                 CONFIG_PATH home \<mapsto> RegularFile (JSON_stringify E ?merged @ [CHR 0x0A]))"
  have w: "writeJson E (CONFIG_PATH home) ?merged fs = Inr ?fs'"
    using a by (auto simp: writeJson_def dirname_CONFIG_PATH mkdirSync_def writeFileSync_def
                  path_distinct split: option.splits fsentry.splits)
  have p: "patchOpenClawConfig E home now apiKey fs = Inr ?fs'"
    unfolding patchOpenClawConfig_def Let_def b using w by simp
  show "\<exists>fs'. patchOpenClawConfig E home now apiKey fs = Inr fs' \<and>
           (\<forall>p. p \<noteq> CONFIG_PATH home \<and> p \<noteq> OPENCLAW_DIR home \<longrightarrow> fs' p = fs p)"
    apply (rule exI[of _ ?fs'])
    using p by simp
qed

theorem backup_before_write_witness:
  "fsConfigured (CONFIG_PATH ''/home/u'') = Some (RegularFile ''{}'')
   \<and> fsConfigured (backupPath ''/home/u'' 1700000000000) = None
   \<and> fsConfigured (OPENCLAW_DIR ''/home/u'') = Some Directory
   \<and> backupPath ''/home/u'' 1700000000000 = ''/home/u/.openclaw/openclaw.json.bak.1700000000000''
   \<and> (\<exists>fs'. patchOpenClawConfig sampleEnv ''/home/u'' 1700000000000 ''sk'' fsConfigured = Inr fs'
            \<and> fs' ''/home/u/.openclaw/openclaw.json.bak.1700000000000'' = Some (RegularFile ''{}''))
   \<and> fsFresh (CONFIG_PATH ''/home/u'') = None
   \<and> fsFresh (OPENCLAW_DIR ''/home/u'') = None
   \<and> (\<exists>fs'. patchOpenClawConfig sampleEnv ''/home/u'' 1700000000000 ''sk'' fsFresh = Inr fs'
            \<and> fs' ''/home/u/.openclaw/openclaw.json.bak.1700000000000'' = None)"
proof -
  have paths: "CONFIG_PATH ''/home/u'' = ''/home/u/.openclaw/openclaw.json''"
              "OPENCLAW_DIR ''/home/u'' = ''/home/u/.openclaw''"
    by (simp_all add: CONFIG_PATH_def OPENCLAW_DIR_def path_join_def)
  have bak: "backupPath ''/home/u'' 1700000000000 =
               ''/home/u/.openclaw/openclaw.json.bak.1700000000000''"
    by (simp add: backupPath_def CONFIG_PATH_def OPENCLAW_DIR_def path_join_def digit_def)
  have c: "fsConfigured (CONFIG_PATH ''/home/u'') = Some (RegularFile ''{}'')"
          "fsConfigured (backupPath ''/home/u'' 1700000000000) = None"
          "fsConfigured (OPENCLAW_DIR ''/home/u'') = Some Directory"
    by (simp_all add: paths bak fsConfigured_def)
  have f: "fsFresh (CONFIG_PATH ''/home/u'') = None" "fsFresh (OPENCLAW_DIR ''/home/u'') = None"
          "fsFresh (backupPath ''/home/u'' 1700000000000) = None"
    by (simp_all add: fsFresh_def)
  have neq: "backupPath ''/home/u'' 1700000000000 \<noteq> CONFIG_PATH ''/home/u''"
            "backupPath ''/home/u'' 1700000000000 \<noteq> OPENCLAW_DIR ''/home/u''"
    by (simp_all add: path_distinct)
  from backup_before_write[of fsConfigured "''/home/u''" "''{}''" 1700000000000 sampleEnv "''sk''"] c
  have one: "\<exists>fs'. patchOpenClawConfig sampleEnv ''/home/u'' 1700000000000 ''sk'' fsConfigured = Inr fs'
            \<and> fs' (backupPath ''/home/u'' 1700000000000) = Some (RegularFile ''{}'')"
    by auto
  from backup_before_write[of fsFresh "''/home/u''" "''{}''" 1700000000000 sampleEnv "''sk''"] f neq
  have two: "\<exists>fs'. patchOpenClawConfig sampleEnv ''/home/u'' 1700000000000 ''sk'' fsFresh = Inr fs'
            \<and> fs' (backupPath ''/home/u'' 1700000000000) = None"
    by auto
  from one two c f show ?thesis
    unfolding bak by simp
qed

section \<open>The rounding to doubles\<close>

text \<open>
  The rounding \<open>binary64\<close> of the sample environment has the three properties of
  \<open>doubleRounding\<close>. Its values are the numbers \<open>N * 2^q\<close> with \<open>- 1074 \<le> q\<close> and
  \<open>\<bar>N\<bar> \<le> 2^53\<close>, and it leaves each of these numbers as it is.
\<close>

lemma bitLength_bounds:
  "0 < n \<Longrightarrow> 2 ^ (bitLength n - 1) \<le> n \<and> n < 2 ^ bitLength n"
proof (induction n rule: bitLength.induct)
  case (1 n)
  show ?case
  proof (cases "n div 2 = 0")
    case True
    with 1 have "n = 1" by (simp add: div_eq_0_iff)
    then show ?thesis by (simp add: bitLength.simps[of "Suc 0"] bitLength.simps[of 0])
  next
    case False
    then have pos: "0 < n div 2" by simp
    from 1 have n0: "n \<noteq> 0" by simp
    from "1.IH"[OF n0 pos] have ih: "2 ^ (bitLength (n div 2) - 1) \<le> n div 2"
      "n div 2 < 2 ^ bitLength (n div 2)" by simp_all
    have bl: "bitLength n = Suc (bitLength (n div 2))" using n0 by (simp add: bitLength.simps[of n])
    have b1: "bitLength (n div 2) \<noteq> 0" using pos by (simp add: bitLength.simps[of "n div 2"])
    then obtain k where k: "bitLength (n div 2) = Suc k" by (cases "bitLength (n div 2)") simp_all
    from ih have "2 * 2 ^ k \<le> 2 * (n div 2)" by (simp add: k)
    also have "\<dots> \<le> n" by simp
    finally have lo: "2 ^ (bitLength n - 1) \<le> n" by (simp add: bl k)
    from ih(2) have "n div 2 + 1 \<le> 2 ^ bitLength (n div 2)" by simp
    then have "2 * (n div 2) + 2 \<le> 2 * 2 ^ bitLength (n div 2)" by simp
    moreover have "n < 2 * (n div 2) + 2" by arith
    ultimately have hi: "n < 2 ^ bitLength n" by (simp add: bl)
    from lo hi show ?thesis ..
  qed
qed


lemma pow2_pos: "0 < (2 :: rat) powi e"
  by (simp add: zero_less_power_int)

lemma pow2_add: "(2 :: rat) powi (m + n) = 2 powi m * 2 powi n"
  by (simp add: power_int_add)

lemma pow2_mono: "m \<le> n \<Longrightarrow> (2 :: rat) powi m \<le> 2 powi n"
  by (simp add: power_int_increasing)

lemma pow2_less_exp: "(2 :: rat) powi m < 2 powi n \<Longrightarrow> m < n"
  using pow2_mono[of n m] by (cases "m < n") simp_all

lemma pow2_le_exp: "(2 :: rat) powi m \<le> 2 powi n \<Longrightarrow> m \<le> n"
  using power_int_strict_increasing[of n m "2 :: rat"] by (cases "m \<le> n") simp_all

lemma pow2_nat: "0 \<le> e \<Longrightarrow> (2 :: rat) powi e = of_int (2 ^ nat e)"
  by (simp add: power_int_def)

lemma exponentOf_bounds:
  assumes "x \<noteq> 0"
  shows "2 powi exponentOf x \<le> \<bar>x\<bar> \<and> \<bar>x\<bar> < 2 powi (exponentOf x + 1)"
proof (cases "1 \<le> \<bar>x\<bar>")
  case True
  let ?n = "nat \<lfloor>\<bar>x\<bar>\<rfloor>"
  let ?b = "bitLength ?n"
  from True have fl: "1 \<le> \<lfloor>\<bar>x\<bar>\<rfloor>" by (simp add: le_floor_iff)
  then have n: "0 < ?n" by simp
  from bitLength_bounds[OF n] have lo: "2 ^ (?b - 1) \<le> ?n" and hi: "?n < 2 ^ ?b" by simp_all
  have b: "?b \<noteq> 0" using n by (simp add: bitLength.simps[of ?n])
  have e: "exponentOf x = int (?b - 1)" using True b by (simp add: exponentOf_def)
  have e1: "exponentOf x + 1 = int ?b" using b by (simp add: e)
  have nfl: "(of_nat ?n :: rat) = of_int \<lfloor>\<bar>x\<bar>\<rfloor>" using fl by simp
  from lo have "(of_nat (2 ^ (?b - 1)) :: rat) \<le> of_nat ?n" by (simp only: of_nat_le_iff)
  also have "\<dots> \<le> \<bar>x\<bar>" unfolding nfl by simp
  finally have l: "2 powi exponentOf x \<le> \<bar>x\<bar>" by (simp add: e)
  have "\<bar>x\<bar> < of_int \<lfloor>\<bar>x\<bar>\<rfloor> + 1" by linarith
  also have "\<dots> = of_nat (Suc ?n)" using nfl by simp
  also have "(of_nat (Suc ?n) :: rat) \<le> of_nat (2 ^ ?b)"
  proof -
    from hi have "Suc ?n \<le> 2 ^ ?b" by (rule Suc_leI)
    then show ?thesis by (simp only: of_nat_le_iff)
  qed
  finally have h: "\<bar>x\<bar> < 2 powi (exponentOf x + 1)" by (simp add: e1)
  from l h show ?thesis ..
next
  case False
  define a where "a = \<bar>x\<bar>"
  define y where "y = 1 / a"
  define m where "m = \<lceil>y\<rceil>"
  define n where "n = nat (m - 1)"
  define b where "b = bitLength n"
  from assms have a0: "0 < a" by (simp add: a_def)
  from False have a1: "a < 1" by (simp add: a_def)
  have y1: "1 < y" unfolding y_def using a0 a1 by (simp add: field_simps)
  have ym: "y \<le> of_int m" unfolding m_def by (rule le_of_int_ceiling)
  have my: "of_int m - 1 < y" unfolding m_def by linarith
  from y1 ym have "(of_int 1 :: rat) < of_int m" by simp
  then have "1 < m" by (simp only: of_int_less_iff)
  then have m2: "0 \<le> m - 1" "0 < m - 1" by simp_all
  have n0: "0 < n" unfolding n_def using m2(2) by simp
  have "int n = m - 1" unfolding n_def using m2(1) by (rule nat_0_le)
  then have "(of_int (int n) :: rat) = of_int (m - 1)" by (simp only:)
  then have nm: "(of_nat n :: rat) = of_int m - 1"
    by (simp only: of_int_of_nat_eq of_int_diff of_int_1)
  from bitLength_bounds[OF n0] have lo: "2 ^ (b - 1) \<le> n" and hi: "n < 2 ^ b"
    by (simp_all add: b_def)
  have b0: "b \<noteq> 0" using n0 by (simp add: b_def bitLength.simps[of n])
  have e: "exponentOf x = - int b"
    using False by (simp add: exponentOf_def b_def n_def m_def y_def a_def)
  from hi have "Suc n \<le> 2 ^ b" by (rule Suc_leI)
  then have "(of_nat (Suc n) :: rat) \<le> of_nat (2 ^ b)" by (simp only: of_nat_le_iff)
  then have "(of_int m :: rat) \<le> 2 ^ b" by (simp add: nm)
  with ym have "y \<le> 2 ^ b" by (rule order_trans)
  then have "1 \<le> 2 ^ b * a" unfolding y_def using a0 by (simp add: field_simps)
  then have "1 / 2 ^ b \<le> a" by (simp add: field_simps)
  moreover have "(2 :: rat) powi (- int b) = 1 / 2 ^ b"
    by (simp add: power_int_minus_divide)
  ultimately have l: "2 powi exponentOf x \<le> \<bar>x\<bar>" by (simp only: e a_def)
  from lo have "(of_nat (2 ^ (b - 1)) :: rat) \<le> of_nat n" by (simp only: of_nat_le_iff)
  then have "(2 :: rat) ^ (b - 1) \<le> of_int m - 1" by (simp add: nm)
  from this my have "(2 :: rat) ^ (b - 1) < y" by (rule le_less_trans)
  then have "2 ^ (b - 1) * a < 1" unfolding y_def using a0 by (simp add: field_simps)
  then have "a < 1 / 2 ^ (b - 1)" by (simp add: field_simps)
  moreover have "(2 :: rat) powi (- int (b - 1)) = 1 / 2 ^ (b - 1)"
    by (simp add: power_int_minus_divide)
  moreover have "exponentOf x + 1 = - int (b - 1)" using b0 by (simp add: e)
  ultimately have h: "\<bar>x\<bar> < 2 powi (exponentOf x + 1)" by (simp only: a_def)
  from l h show ?thesis ..
qed

lemma roundHalfEven_int: "roundHalfEven (of_int n) = n"
  by (simp add: roundHalfEven_def)

lemma roundHalfEven_ge: "of_int a \<le> y \<Longrightarrow> a \<le> roundHalfEven y"
proof -
  assume "of_int a \<le> y"
  then have "a \<le> \<lfloor>y\<rfloor>" by (simp add: le_floor_iff)
  then show ?thesis by (simp add: roundHalfEven_def Let_def)
qed

lemma roundHalfEven_le: "y \<le> of_int b \<Longrightarrow> roundHalfEven y \<le> b"
proof -
  assume yb: "y \<le> of_int b"
  have "of_int \<lfloor>y\<rfloor> \<le> y" by simp
  from this yb have "(of_int \<lfloor>y\<rfloor> :: rat) \<le> of_int b" by (rule order_trans)
  then have f: "\<lfloor>y\<rfloor> \<le> b" by (simp only: of_int_le_iff)
  have "y - of_int \<lfloor>y\<rfloor> < 1 / 2 \<or> \<lfloor>y\<rfloor> + 1 \<le> b"
  proof (cases "y - of_int \<lfloor>y\<rfloor> < 1 / 2")
    case True
    then show ?thesis ..
  next
    case False
    then have "of_int \<lfloor>y\<rfloor> < y" by simp
    with yb have "(of_int \<lfloor>y\<rfloor> :: rat) < of_int b" by simp
    then have "\<lfloor>y\<rfloor> < b" by (simp only: of_int_less_iff)
    then show ?thesis by simp
  qed
  with f show ?thesis by (auto simp: roundHalfEven_def Let_def)
qed

text \<open>
  A number in units of its last place is below \<open>2^53\<close>, and is at least 1 when the number
  is at least \<open>2^-1074\<close>.
\<close>

lemma scaled_bounds:
  assumes "x \<noteq> 0" and "q = max (exponentOf x - 52) (- 1074)"
  shows "\<bar>x / 2 powi q\<bar> < 2 ^ 53" and "2 powi (- 1074) \<le> \<bar>x\<bar> \<Longrightarrow> 1 \<le> \<bar>x / 2 powi q\<bar>"
proof -
  let ?e = "exponentOf x"
  from exponentOf_bounds[OF assms(1)] have lo: "2 powi ?e \<le> \<bar>x\<bar>" and hi: "\<bar>x\<bar> < 2 powi (?e + 1)"
    by simp_all
  have qp: "0 < (2 :: rat) powi q" by (rule pow2_pos)
  have "?e + 1 = (?e - 52) + 53" by simp
  then have "(2 :: rat) powi (?e + 1) = 2 powi ((?e - 52) + 53)" by (simp only:)
  also have "\<dots> = 2 powi (?e - 52) * 2 powi 53" by (rule pow2_add)
  also have "\<dots> \<le> 2 powi q * 2 powi 53"
    using pow2_mono[of "?e - 52" q] assms(2) by (simp add: pow2_pos)
  finally have "(2 :: rat) powi (?e + 1) \<le> 2 powi q * 2 powi 53" .
  with hi have "\<bar>x\<bar> < 2 powi q * 2 ^ 53" by simp
  then show "\<bar>x / 2 powi q\<bar> < 2 ^ 53"
    using qp by (simp add: abs_mult field_simps abs_of_pos)
  assume big: "2 powi (- 1074) \<le> \<bar>x\<bar>"
  have "2 powi q \<le> \<bar>x\<bar>"
  proof (cases "?e - 52 \<le> - 1074")
    case True
    then show ?thesis using big assms(2) by simp
  next
    case False
    then have "q = ?e - 52" using assms(2) by simp
    then have "(2 :: rat) powi q \<le> 2 powi ?e" using pow2_mono[of q ?e] by simp
    with lo show ?thesis by simp
  qed
  then show "1 \<le> \<bar>x / 2 powi q\<bar>"
    using qp by (simp add: abs_mult field_simps abs_of_pos)
qed

lemma binary64_form:
  "\<exists>N q. binary64 x = of_int N * 2 powi q \<and> - 1074 \<le> q \<and> \<bar>N\<bar> \<le> 2 ^ 53"
proof (cases "x = 0")
  case True
  then have "binary64 x = of_int 0 * 2 powi 0" by (simp add: binary64_def)
  then show ?thesis by (intro exI[of _ 0] exI[of _ "0::int"]) simp
next
  case False
  define q where "q = max (exponentOf x - 52) (- 1074)"
  define N where "N = roundHalfEven (x / 2 powi q)"
  from scaled_bounds(1)[OF False q_def, unfolded abs_less_iff]
  have up: "x / 2 powi q \<le> of_int (2 ^ 53)" and dn: "of_int (- (2 ^ 53)) \<le> x / 2 powi q"
    by simp_all
  have "N \<le> 2 ^ 53" unfolding N_def using up by (rule roundHalfEven_le)
  moreover have "- (2 ^ 53) \<le> N" unfolding N_def using dn by (rule roundHalfEven_ge)
  ultimately have n: "\<bar>N\<bar> \<le> 2 ^ 53" by simp
  have "binary64 x = of_int N * 2 powi q"
    using False by (simp add: binary64_def N_def q_def Let_def)
  moreover have "- 1074 \<le> q" by (simp add: q_def)
  ultimately show ?thesis using n by blast
qed

lemma binary64_representable:
  assumes q: "- 1074 \<le> q" and N: "\<bar>N\<bar> \<le> 2 ^ 53"
  shows "binary64 (of_int N * 2 powi q) = of_int N * 2 powi q"
proof (cases "N = 0")
  case True
  then show ?thesis by (simp add: binary64_def)
next
  case False
  let ?y = "of_int N * (2 :: rat) powi q"
  let ?e = "exponentOf ?y"
  define q' where "q' = max (?e - 52) (- 1074)"
  have y0: "?y \<noteq> 0" using False by (simp add: power_int_eq_0_iff)
  from exponentOf_bounds[OF y0] have lo: "2 powi ?e \<le> \<bar>?y\<bar>" by simp
  have ay: "\<bar>?y\<bar> = of_int \<bar>N\<bar> * 2 powi q"
    using pow2_pos[of q] by (simp add: abs_mult abs_of_pos)
  have "(of_int \<bar>N\<bar> :: rat) \<le> of_int (2 ^ 53)" using N by (simp only: of_int_le_iff)
  then have "\<bar>?y\<bar> \<le> 2 powi 53 * 2 powi q"
    unfolding ay using pow2_pos[of q] by (simp add: mult_right_mono)
  also have "\<dots> = 2 powi (53 + q)" by (simp add: pow2_add)
  finally have "(2 :: rat) powi ?e \<le> 2 powi (53 + q)" using lo by simp
  then have e: "?e \<le> 53 + q" by (rule pow2_le_exp)
  have "\<exists>M :: int. ?y / 2 powi q' = of_int M"
  proof (cases "?e - 52 \<le> q")
    case True
    then have le: "q' \<le> q" using q by (simp add: q'_def)
    have "(2 :: rat) powi q = 2 powi (q - q') * 2 powi q'"
      using pow2_add[of "q - q'" q'] by simp
    then have "?y / 2 powi q' = of_int N * 2 powi (q - q')"
      using pow2_pos[of q'] by simp
    also have "\<dots> = of_int (N * 2 ^ nat (q - q'))"
      using le by (simp add: pow2_nat)
    finally show ?thesis by blast
  next
    case False
    with e have eq: "?e = 53 + q" by simp
    then have q1: "q' = q + 1" using q by (simp add: q'_def)
    from lo have "2 powi 53 * 2 powi q \<le> of_int \<bar>N\<bar> * (2 :: rat) powi q"
      unfolding ay eq by (simp add: pow2_add)
    then have "(of_int (2 ^ 53) :: rat) \<le> of_int \<bar>N\<bar>"
      using pow2_pos[of q] by simp
    then have "2 ^ 53 \<le> \<bar>N\<bar>" by (simp only: of_int_le_iff)
    with N have "\<bar>N\<bar> = 2 ^ 53" by simp
    then have "N = 2 ^ 53 \<or> N = - (2 ^ 53)" by linarith
    then have ev: "N = 2 * (N div 2)" by auto
    have "?y / 2 powi q' = of_int N / 2"
      using pow2_pos[of q] by (simp add: q1 pow2_add)
    also have "\<dots> = of_int (N div 2)"
    proof -
      have "(of_int N :: rat) = of_int (2 * (N div 2))" using ev by simp
      also have "\<dots> = 2 * of_int (N div 2)" by simp
      finally show ?thesis by simp
    qed
    finally show ?thesis by blast
  qed
  then obtain M :: int where M: "?y / 2 powi q' = of_int M" ..
  have "binary64 ?y = of_int (roundHalfEven (?y / 2 powi q')) * 2 powi q'"
    using y0 by (simp add: binary64_def q'_def Let_def)
  also have "\<dots> = (?y / 2 powi q') * 2 powi q'"
    by (simp only: M roundHalfEven_int)
  also have "\<dots> = ?y" using pow2_pos[of q'] by simp
  finally show ?thesis .
qed

lemma binary64_idem: "binary64 (binary64 x) = binary64 x"
proof -
  from binary64_form[of x] obtain N q where
    "binary64 x = of_int N * 2 powi q" "- 1074 \<le> q" "\<bar>N\<bar> \<le> 2 ^ 53" by blast
  then show ?thesis by (simp add: binary64_representable)
qed

lemma binary64_half:
  assumes "\<bar>k\<bar> \<le> 2 ^ 53"
  shows "binary64 (of_int k / 2) = of_int k / 2"
proof -
  have h: "(2 :: rat) powi (- 1) = 1 / 2" by (simp add: power_int_minus_divide)
  have q: "(- 1074 :: int) \<le> - 1" by simp
  have "binary64 (of_int k * 2 powi (- 1)) = of_int k * 2 powi (- 1)"
    using q assms by (rule binary64_representable)
  then show ?thesis unfolding h by simp
qed

lemma binary64_grid:
  assumes "binary64 a = a"
  shows "\<exists>A :: int. a = of_int A * 2 powi (- 1074)"
proof -
  from binary64_form[of a] assms obtain N q where
    a: "a = of_int N * 2 powi q" and q: "- 1074 \<le> q" by auto
  have "(2 :: rat) powi q = 2 powi (q + 1074) * 2 powi (- 1074)"
    using pow2_add[of "q + 1074" "- 1074"] by simp
  also have "(2 :: rat) powi (q + 1074) = of_int (2 ^ nat (q + 1074))"
    using q by (simp add: pow2_nat)
  finally have "a = of_int (N * 2 ^ nat (q + 1074)) * 2 powi (- 1074)"
    unfolding a by simp
  then show ?thesis by blast
qed

lemma binary64_difference:
  assumes "binary64 a = a" and "binary64 b = b" and "a < b"
  shows "binary64 (a - b) < 0"
proof -
  from binary64_grid[OF assms(1)] binary64_grid[OF assms(2)] obtain A B :: int where
    a: "a = of_int A * 2 powi (- 1074)" and b: "b = of_int B * 2 powi (- 1074)" by blast
  let ?u = "(2 :: rat) powi (- 1074)"
  have u: "0 < ?u" by (rule pow2_pos)
  let ?d = "a - b"
  have d: "?d = of_int (A - B) * ?u" by (simp add: a b algebra_simps)
  from assms(3) have d0: "?d < 0" by simp
  then have "of_int (A - B) * ?u < 0" using d by simp
  then have "(of_int (A - B) :: rat) < 0" using u by (simp add: mult_less_0_iff)
  then have "A - B \<le> - 1" by simp
  then have "(of_int (A - B) :: rat) \<le> of_int (- 1)" by (simp only: of_int_le_iff)
  then have "?d \<le> - ?u" unfolding d using u by (simp add: mult_right_mono)
  then have big: "?u \<le> \<bar>?d\<bar>" using d0 by simp
  define q where "q = max (exponentOf ?d - 52) (- 1074)"
  have ne: "?d \<noteq> 0" using d0 by simp
  define t where "t = ?d / 2 powi q"
  from scaled_bounds(2)[OF ne q_def big] have "1 \<le> \<bar>t\<bar>" unfolding t_def .
  moreover have "t < 0" unfolding t_def using d0 pow2_pos[of q] by (simp add: divide_neg_pos)
  ultimately have "t \<le> - 1" by linarith
  then have "?d / 2 powi q \<le> of_int (- 1)" unfolding t_def by simp
  then have "roundHalfEven (?d / 2 powi q) \<le> - 1" by (rule roundHalfEven_le)
  then have "(of_int (roundHalfEven (?d / 2 powi q)) :: rat) < 0" by simp
  then have "(of_int (roundHalfEven (?d / 2 powi q)) :: rat) * 2 powi q < 0"
    using pow2_pos[of q] by (simp add: mult_less_0_iff)
  then show ?thesis using ne by (simp add: binary64_def q_def Let_def)
qed

lemma doubleRounding_binary64: "doubleRounding binary64"
  unfolding doubleRounding_def
  using binary64_idem binary64_half binary64_difference by blast

text \<open>Evaluating \<open>binary64\<close> on numerals.\<close>

lemma floor_rat_numeral: "\<lfloor>numeral a / numeral b :: rat\<rfloor> = numeral a div numeral b"
  using floor_divide_of_int_eq[of "numeral a" "numeral b", where ?'a = rat] by simp

lemma ceiling_rat_numeral: "\<lceil>numeral a / numeral b :: rat\<rceil> = - (- numeral a div numeral b)"
  using ceiling_divide_eq_div[of "numeral a" "numeral b", where ?'a = rat] by simp

lemmas binary64_eval =
  binary64_def exponentOf_def roundHalfEven_def bitLength.simps Let_def
  floor_rat_numeral ceiling_rat_numeral

section \<open>The cost of a token total\<close>

lemma toNumber_number: "toNumber E (JNum n) = Inr (Some n)"
  by (simp add: toNumber_def)

lemma computeCosts_numbers:
  "computeCosts E \<lparr>inputTokens = JNum i, outputTokens = JNum j\<rparr> config =
     Inr \<lparr>inputTokens = JNum i, outputTokens = JNum j,
          baselineTotal = Some (tableCost E i j (baseline config)),
          sansaTotal = Some (tableCost E i j (sansa config)),
          saved = Some (roundNumber E (tableCost E i j (baseline config)
                                       - tableCost E i j (sansa config)))\<rparr>"
  by (simp add: computeCosts_def toNumber_number nanDivide_def nanTimes_def nanPlus_def
                nanMinus_def tableCost_def)

lemma tableCost_rounded:
  "doubleRounding (roundNumber E) \<Longrightarrow>
   roundNumber E (tableCost E i j pricing) = tableCost E i j pricing"
  by (simp add: doubleRounding_def tableCost_def)

lemma rounding_half:
  assumes "doubleRounding fl" and "\<bar>k\<bar> \<le> 2 ^ 53"
  shows "fl (of_int k / 2) = of_int k / 2"
  using assms by (simp add: doubleRounding_def)

lemma rounding_small:
  assumes "doubleRounding fl"
  shows "fl 0 = 0" "fl 1 = 1" "fl 5 = 5" "fl 6 = 6" "fl 10 = 10" "fl 15 = 15"
        "fl (3 / 2) = 3 / 2" "fl (15 / 2) = 15 / 2"
  using rounding_half[OF assms, of 0] rounding_half[OF assms, of 2]
        rounding_half[OF assms, of 10] rounding_half[OF assms, of 12]
        rounding_half[OF assms, of 20] rounding_half[OF assms, of 30]
        rounding_half[OF assms, of 3] rounding_half[OF assms, of 15]
  by simp_all

text \<open>
  Claim C8. For every token totals (numbers \<open>i\<close> and \<open>j\<close>) and pricing configuration,
  \<^verbatim>\<open>computeCosts\<close> returns as baseline and as treated cost
  \<open>i / 1000000 * inputCostPerMillion + j / 1000000 * outputCostPerMillion\<close> under the
  respective table, as JavaScript evaluates it (each operation rounds its result to a
  double), and as \<^verbatim>\<open>saved\<close> the baseline cost minus the treated cost, with no clamping:
  when the treated cost exceeds the baseline cost, \<^verbatim>\<open>saved\<close> is negative. In particular,
  1,000,000 input and 1,000,000 output tokens under baseline {10, 5} and treated {1.5, 6}
  give the costs 15 and 7.5 and 7.5 saved.
\<close>

theorem computeCosts_formula:
  "computeCosts E \<lparr>inputTokens = JNum i, outputTokens = JNum j\<rparr> config =
     Inr \<lparr>inputTokens = JNum i, outputTokens = JNum j,
          baselineTotal = Some (tableCost E i j (baseline config)),
          sansaTotal = Some (tableCost E i j (sansa config)),
          saved = Some (roundNumber E (tableCost E i j (baseline config)
                                       - tableCost E i j (sansa config)))\<rparr>
   \<and> (doubleRounding (roundNumber E) \<and>
        tableCost E i j (baseline config) < tableCost E i j (sansa config) \<longrightarrow>
        roundNumber E (tableCost E i j (baseline config) - tableCost E i j (sansa config)) < 0)
   \<and> (doubleRounding (roundNumber E) \<longrightarrow>
        computeCosts E \<lparr>inputTokens = JNum 1000000, outputTokens = JNum 1000000\<rparr>
          defaultSansaConfig =
        Inr \<lparr>inputTokens = JNum 1000000, outputTokens = JNum 1000000,
             baselineTotal = Some 15, sansaTotal = Some (15 / 2), saved = Some (15 / 2)\<rparr>)"
proof (intro conjI impI)
  show "computeCosts E \<lparr>inputTokens = JNum i, outputTokens = JNum j\<rparr> config =
     Inr \<lparr>inputTokens = JNum i, outputTokens = JNum j,
          baselineTotal = Some (tableCost E i j (baseline config)),
          sansaTotal = Some (tableCost E i j (sansa config)),
          saved = Some (roundNumber E (tableCost E i j (baseline config)
                                       - tableCost E i j (sansa config)))\<rparr>"
    by (rule computeCosts_numbers)
next
  assume a: "doubleRounding (roundNumber E) \<and>
             tableCost E i j (baseline config) < tableCost E i j (sansa config)"
  then have d: "doubleRounding (roundNumber E)" by simp
  from a tableCost_rounded[OF d, of i j "baseline config"]
       tableCost_rounded[OF d, of i j "sansa config"]
  show "roundNumber E (tableCost E i j (baseline config) - tableCost E i j (sansa config)) < 0"
    using d unfolding doubleRounding_def by blast
next
  assume d: "doubleRounding (roundNumber E)"
  note r = rounding_small[OF d]
  have b: "tableCost E 1000000 1000000 (baseline defaultSansaConfig) = 15"
    by (simp add: tableCost_def defaultSansaConfig_def r)
  have s: "tableCost E 1000000 1000000 (sansa defaultSansaConfig) = 15 / 2"
    by (simp add: tableCost_def defaultSansaConfig_def r)
  show "computeCosts E \<lparr>inputTokens = JNum 1000000, outputTokens = JNum 1000000\<rparr>
          defaultSansaConfig =
        Inr \<lparr>inputTokens = JNum 1000000, outputTokens = JNum 1000000,
             baselineTotal = Some 15, sansaTotal = Some (15 / 2), saved = Some (15 / 2)\<rparr>"
    by (simp add: computeCosts_numbers b s r)
qed

text \<open>
  In the sample environment, whose rounding is \<open>binary64\<close>: the instance of the claim;
  a total with more output tokens, where the treated cost is the higher one; and one
  input token, which costs \<open>368934881474191 / 2^65\<close> under the baseline table, the
  double below \<open>1 / 100000\<close> that JavaScript prints as \<^verbatim>\<open>9.999999999999999e-06\<close>.
\<close>

theorem computeCosts_formula_witness:
  "doubleRounding (roundNumber sampleEnv)
   \<and> tableCost sampleEnv 0 1000000 (baseline defaultSansaConfig) = 5
   \<and> tableCost sampleEnv 0 1000000 (sansa defaultSansaConfig) = 6
   \<and> computeCosts sampleEnv \<lparr>inputTokens = JNum 0, outputTokens = JNum 1000000\<rparr>
        defaultSansaConfig =
      Inr \<lparr>inputTokens = JNum 0, outputTokens = JNum 1000000,
           baselineTotal = Some 5, sansaTotal = Some 6, saved = Some (- 1)\<rparr>
   \<and> roundNumber sampleEnv (5 - 6) < 0
   \<and> computeCosts sampleEnv \<lparr>inputTokens = JNum 1000000, outputTokens = JNum 1000000\<rparr>
        defaultSansaConfig =
      Inr \<lparr>inputTokens = JNum 1000000, outputTokens = JNum 1000000,
           baselineTotal = Some 15, sansaTotal = Some (15 / 2), saved = Some (15 / 2)\<rparr>
   \<and> computeCosts sampleEnv \<lparr>inputTokens = JNum 1, outputTokens = JNum 0\<rparr>
        defaultSansaConfig =
      Inr \<lparr>inputTokens = JNum 1, outputTokens = JNum 0,
           baselineTotal = Some (368934881474191 / 2 ^ 65),
           sansaTotal = Some (1770887431076117 / 2 ^ 70),
           saved = Some (2508757194024499 / 2 ^ 68)\<rparr>"
proof -
  have d: "doubleRounding (roundNumber sampleEnv)"
    by (simp add: sampleEnv_def doubleRounding_binary64)
  note r = rounding_small[OF d]
  have neg: "roundNumber sampleEnv (- 1) = - 1"
    using rounding_half[OF d, of "- 2"] by simp
  have b: "tableCost sampleEnv 0 1000000 (baseline defaultSansaConfig) = 5"
    by (simp add: tableCost_def defaultSansaConfig_def r)
  have s: "tableCost sampleEnv 0 1000000 (sansa defaultSansaConfig) = 6"
    by (simp add: tableCost_def defaultSansaConfig_def r)
  have tb: "tableCost sampleEnv 1 0 (baseline defaultSansaConfig) = 368934881474191 / 2 ^ 65"
    by (simp add: tableCost_def defaultSansaConfig_def sampleEnv_def binary64_eval)
  have ts: "tableCost sampleEnv 1 0 (sansa defaultSansaConfig) = 1770887431076117 / 2 ^ 70"
    by (simp add: tableCost_def defaultSansaConfig_def sampleEnv_def binary64_eval)
  have sv: "roundNumber sampleEnv (368934881474191 / 2 ^ 65 - 1770887431076117 / 2 ^ 70) = 2508757194024499 / 2 ^ 68"
    by (simp add: sampleEnv_def binary64_eval)
  from computeCosts_formula[of sampleEnv 0 1000000 defaultSansaConfig]
       computeCosts_formula[of sampleEnv 1 0 defaultSansaConfig] d b s neg tb ts sv
  show ?thesis by simp
qed

section \<open>What a scan sums\<close>











subsection \<open>Records on both sides of a cutoff\<close>






subsection \<open>Counts and successive runs\<close>






lemma isNumberE: "isNumber v \<Longrightarrow> (\<And>n. v = JNum n \<Longrightarrow> P) \<Longrightarrow> P"
  by (cases v) simp_all



lemma scanLine_record:
  assumes "\<not> isBlank line" "JSON_parse E line = Some entry"
      and "getProp entry ''message'' = Some message"
      and "getProp message ''usage'' = Some usage" "truthy usage"
  shows "scanLine E c line t =
     (case jsLess E (nullishOr (getProp message ''timestamp'') (JNum 0)) c of Inl e \<Rightarrow> t
      | Inr before \<Rightarrow> if before then t else addUsage E usage t)"
proof -
  from assms(3) have e: "entry \<noteq> JNull" by (auto simp: getProp_def)
  from assms(4) have m: "message \<noteq> JNull" by (auto simp: getProp_def)
  have oc: "optChain (Some message) k = getProp message k" for k
    using m by (cases message) (simp_all add: optChain_def)
  show ?thesis
    using assms e by (simp add: scanLine_def oc Let_def)
qed

subsection \<open>A file or an entry in its place in the log directory\<close>

lemma splitLines_line: "CHR 0x0A \<notin> set l \<Longrightarrow> splitLines l = [l]"
  by (induction l) auto

lemma splitLines_append_newline:
  "CHR 0x0A \<notin> set l \<Longrightarrow> splitLines (l @ CHR 0x0A # rest) = l # splitLines rest"
  by (induction l) auto

lemma splitLines_joinWith:
  "ls \<noteq> [] \<Longrightarrow> \<forall>l \<in> set ls. CHR 0x0A \<notin> set l \<Longrightarrow> splitLines (joinWith [CHR 0x0A] ls) = ls"
proof (induction "[CHR 0x0A]" ls rule: joinWith.induct)
  case 1
  then show ?case by simp
next
  case (2 x)
  then show ?case by (simp add: splitLines_line)
next
  case (3 x y ys)
  then show ?case by (simp add: splitLines_append_newline)
qed

lemma scanLine_undecodable: "JSON_parse E line = None \<Longrightarrow> scanLine E c line t = t"
  by (simp add: scanLine_def)

lemma fold_scanLine_without:
  assumes "JSON_parse E bad = None" "CHR 0x0A \<notin> set bad"
      and "\<forall>l \<in> set (before @ after). CHR 0x0A \<notin> set l"
  shows "fold (scanLine E c) (splitLines (joinWith [CHR 0x0A] (before @ [bad] @ after))) t =
         fold (scanLine E c) (splitLines (joinWith [CHR 0x0A] (before @ after))) t"
proof -
  have with_bad: "splitLines (joinWith [CHR 0x0A] (before @ [bad] @ after)) = before @ [bad] @ after"
    using assms by (intro splitLines_joinWith) auto
  show ?thesis
  proof (cases "before @ after = []")
    case True
    then show ?thesis
      using assms(1,2) by (simp add: splitLines_line scanLine_undecodable scanLine_def isBlank_def)
  next
    case False
    then have "splitLines (joinWith [CHR 0x0A] (before @ after)) = before @ after"
      using assms(3) by (intro splitLines_joinWith) auto
    then show ?thesis
      unfolding with_bad using assms(1) by (simp add: scanLine_undecodable)
  qed
qed

lemma scanFiles_append:
  "scanFiles E c (xs @ ys) t =
     (case scanFiles E c xs t of Inl e \<Rightarrow> Inl e | Inr t' \<Rightarrow> scanFiles E c ys t')"
  by (induction xs arbitrary: t) (auto split: sum.splits)

lemma scanAgentDirs_append:
  "scanAgentDirs E c (xs @ ys) t =
     (case scanAgentDirs E c xs t of Inl e \<Rightarrow> Inl e | Inr t' \<Rightarrow> scanAgentDirs E c ys t')"
  by (induction xs arbitrary: t) (auto split: sum.splits option.splits)

lemma scan_same_sessions:
  assumes "\<And>t. scanAgentDirs E c [Some s1] t = scanAgentDirs E c [Some s2] t"
  shows "scanSessionLogs E (Some (DirNode m0 (as1 @ [(agent, DirNode m1 (es1 @ [(''sessions'', s1)] @ es2))] @ as2))) c
       = scanSessionLogs E (Some (DirNode m0' (as1 @ [(agent, DirNode m1' (es1 @ [(''sessions'', s2)] @ es2))] @ as2))) c"
proof (cases "map_of es1 ''sessions''")
  case None
  have step: "scanAgentDirs E c (Some s1 # rest) x = scanAgentDirs E c (Some s2 # rest) x" for rest x
    using scanAgentDirs_append[of E c "[Some s1]" rest x]
          scanAgentDirs_append[of E c "[Some s2]" rest x] assms
    by (simp del: scanAgentDirs.simps)
  from None show ?thesis
    by (simp add: scanSessionLogs_def scanAgentDirs_append map_add_def step
             del: scanAgentDirs.simps cong: sum.case_cong)
next
  case (Some y)
  then show ?thesis
    by (simp add: scanSessionLogs_def map_add_def)
qed

lemma scan_same_file:
  assumes "\<And>t. fold (scanLine E c) (splitLines text1) t = fold (scanLine E c) (splitLines text2) t"
  shows "scanAgentDirs E c [Some (DirNode m2 (fs1 @ [(file, FileNode m text1)] @ fs2))] t
       = scanAgentDirs E c [Some (DirNode m2 (fs1 @ [(file, FileNode m text2)] @ fs2))] t"
  using assms by (auto simp: scanFiles_append split: sum.splits)

lemma scan_other_name:
  assumes "\<not> endsWith name ''.jsonl''"
  shows "scanAgentDirs E c [Some (DirNode m2 (fs1 @ [(name, node)] @ fs2))] t
       = scanAgentDirs E c [Some (DirNode m2' (fs1 @ fs2))] t"
  using assms by simp

section \<open>Properties of the scan and the checkpoint\<close>

text \<open>The definitions that evaluating a scan on the example inputs unfolds.\<close>

lemmas sample_eval =
  scanSessionLogs_def scanLine_def lineRecord_def isBlank_def isSpace_def endsWith_def
  optChain_def getProp_def nullishOr_def jsLess_def toNumber_def addUsage_def inputOf_def
  outputOf_def jsAdd_def sampleEnv_def sampleTexts_def sampleNumberToString_def sampleStringToNumber_def
  sessionsOf_def logFile_def logsBefore_def logsAfter_def logsStale_def logsUndated_def
  logsMistyped_def logsNegative_def logsObjectStamp_def lineA_def lineB_def lineUndated_def
  lineMistyped_def lineNegative_def lineObjectStamp_def lineBroken_def digit_def

text \<open>
  Claim C5, as stated, fails: a record whose timestamp is missing is compared as
  timestamp 0, so with the cutoff 0 of a first run it is counted.
\<close>

theorem cutoff_by_timestamp_counterexample:
  "JSON_parse sampleEnv lineUndated =
     Some (JObj [(''message'', JObj [(''usage'', JObj [(''input'', JNum 5)])])])
   \<and> scanLine sampleEnv 0 lineUndated \<lparr>inputTokens = JNum 0, outputTokens = JNum 0\<rparr>
       = \<lparr>inputTokens = JNum 5, outputTokens = JNum 0\<rparr>
   \<and> scanSessionLogs sampleEnv logsUndated 0
       = Inr \<lparr>inputTokens = JNum 5, outputTokens = JNum 0\<rparr>"
  by (simp add: sample_eval)

text \<open>
  Claim C5, amended. For every scan with cutoff \<open>c\<close> and every line that decodes to a
  record (an entry whose \<^verbatim>\<open>message\<close> holds a truthy \<^verbatim>\<open>usage\<close>): when the timestamp is a
  number, the record is left out of the sums if and only if the timestamp is strictly
  before \<open>c\<close> (a record with timestamp equal to \<open>c\<close> is counted); when the timestamp is
  missing (absent or \<^verbatim>\<open>null\<close>), the record is treated as having timestamp 0: it is left
  out if and only if \<open>0 < c\<close>.
\<close>

theorem cutoff_by_timestamp:
  assumes "\<not> isBlank line" and "JSON_parse E line = Some entry"
      and "getProp entry ''message'' = Some message"
      and "getProp message ''usage'' = Some usage" and "truthy usage"
  shows "(\<forall>n. getProp message ''timestamp'' = Some (JNum n) \<longrightarrow>
            scanLine E c line t = (if n < c then t else addUsage E usage t))
       \<and> (getProp message ''timestamp'' = None \<or> getProp message ''timestamp'' = Some JNull \<longrightarrow>
            scanLine E c line t = (if 0 < c then t else addUsage E usage t))"
  using scanLine_record[OF assms, of c t]
  by (auto simp: nullishOr_def jsLess_def toNumber_def)

theorem cutoff_by_timestamp_witness:
  "\<not> isBlank lineA
   \<and> JSON_parse sampleEnv lineA =
       Some (JObj [(''message'', JObj [(''usage'', JObj [(''input'', JNum 1)]),
                                        (''timestamp'', JNum 10)])])
   \<and> truthy (JObj [(''input'', JNum 1)])
   \<and> scanLine sampleEnv 10 lineA \<lparr>inputTokens = JNum 0, outputTokens = JNum 0\<rparr>
       = \<lparr>inputTokens = JNum 1, outputTokens = JNum 0\<rparr>
   \<and> scanLine sampleEnv 11 lineA \<lparr>inputTokens = JNum 0, outputTokens = JNum 0\<rparr>
       = \<lparr>inputTokens = JNum 0, outputTokens = JNum 0\<rparr>
   \<and> \<not> isBlank lineUndated
   \<and> JSON_parse sampleEnv lineUndated =
       Some (JObj [(''message'', JObj [(''usage'', JObj [(''input'', JNum 5)])])])
   \<and> scanLine sampleEnv 1 lineUndated \<lparr>inputTokens = JNum 0, outputTokens = JNum 0\<rparr>
       = \<lparr>inputTokens = JNum 0, outputTokens = JNum 0\<rparr>"
proof -
  let ?t0 = "\<lparr>inputTokens = JNum 0, outputTokens = JNum 0\<rparr>"
  have a: "\<not> isBlank lineA"
    "JSON_parse sampleEnv lineA =
       Some (JObj [(''message'', JObj [(''usage'', JObj [(''input'', JNum 1)]),
                                        (''timestamp'', JNum 10)])])"
    "getProp (JObj [(''message'', JObj [(''usage'', JObj [(''input'', JNum 1)]),
                                        (''timestamp'', JNum 10)])]) ''message''
       = Some (JObj [(''usage'', JObj [(''input'', JNum 1)]), (''timestamp'', JNum 10)])"
    "getProp (JObj [(''usage'', JObj [(''input'', JNum 1)]), (''timestamp'', JNum 10)]) ''usage''
       = Some (JObj [(''input'', JNum 1)])"
    "truthy (JObj [(''input'', JNum 1)])"
    by (simp_all add: sample_eval)
  have u: "\<not> isBlank lineUndated"
    "JSON_parse sampleEnv lineUndated =
       Some (JObj [(''message'', JObj [(''usage'', JObj [(''input'', JNum 5)])])])"
    "getProp (JObj [(''message'', JObj [(''usage'', JObj [(''input'', JNum 5)])])]) ''message''
       = Some (JObj [(''usage'', JObj [(''input'', JNum 5)])])"
    "getProp (JObj [(''usage'', JObj [(''input'', JNum 5)])]) ''usage''
       = Some (JObj [(''input'', JNum 5)])"
    "truthy (JObj [(''input'', JNum 5)])"
    by (simp_all add: sample_eval)
  from cutoff_by_timestamp[OF a, of 10 ?t0] cutoff_by_timestamp[OF a, of 11 ?t0]
       cutoff_by_timestamp[OF u, of 1 ?t0] a u
  show ?thesis
    by (simp add: getProp_def addUsage_def inputOf_def outputOf_def nullishOr_def jsAdd_def)
qed








text \<open>
  Claim C7. For every record file and every cutoff, a scan of the file with one
  undecodable line among its lines gives exactly the result of a scan of the same file,
  with the same modification time, without that line, wherever the file stands in the
  log directory: the line leaves the counters as they are and aborts neither the rest of
  the file nor the other files.
\<close>

theorem malformed_line_skipped:
  assumes "JSON_parse E bad = None" and "CHR 0x0A \<notin> set bad"
      and "\<forall>l \<in> set (before @ after). CHR 0x0A \<notin> set l"
  shows "scanLine E c bad t = t
       \<and> scanSessionLogs E
           (Some (DirNode m0 (as1 @ [(agent, DirNode m1 (es1 @ [(''sessions'',
              DirNode m2 (fs1 @ [(file, FileNode m (joinWith [CHR 0x0A] (before @ [bad] @ after)))]
                            @ fs2))] @ es2))] @ as2))) c
         = scanSessionLogs E
           (Some (DirNode m0 (as1 @ [(agent, DirNode m1 (es1 @ [(''sessions'',
              DirNode m2 (fs1 @ [(file, FileNode m (joinWith [CHR 0x0A] (before @ after)))]
                            @ fs2))] @ es2))] @ as2))) c"
proof
  show "scanLine E c bad t = t"
    using assms(1) by (rule scanLine_undecodable)
next
  have lines: "fold (scanLine E c) (splitLines (joinWith [CHR 0x0A] (before @ [bad] @ after))) x =
               fold (scanLine E c) (splitLines (joinWith [CHR 0x0A] (before @ after))) x" for x
    using assms by (rule fold_scanLine_without)
  show "scanSessionLogs E
           (Some (DirNode m0 (as1 @ [(agent, DirNode m1 (es1 @ [(''sessions'',
              DirNode m2 (fs1 @ [(file, FileNode m (joinWith [CHR 0x0A] (before @ [bad] @ after)))]
                            @ fs2))] @ es2))] @ as2))) c
         = scanSessionLogs E
           (Some (DirNode m0 (as1 @ [(agent, DirNode m1 (es1 @ [(''sessions'',
              DirNode m2 (fs1 @ [(file, FileNode m (joinWith [CHR 0x0A] (before @ after)))]
                            @ fs2))] @ es2))] @ as2))) c"
    by (rule scan_same_sessions) (rule scan_same_file, rule lines)
qed

theorem malformed_line_skipped_witness:
  "JSON_parse sampleEnv lineBroken = None
   \<and> CHR 0x0A \<notin> set lineBroken \<and> CHR 0x0A \<notin> set lineA \<and> CHR 0x0A \<notin> set lineB
   \<and> scanSessionLogs sampleEnv
        (Some (DirNode 0 [(''main'', DirNode 0 [(''sessions'',
           DirNode 0 [(''a.jsonl'', FileNode 150 (joinWith [CHR 0x0A] [lineA, lineBroken, lineB]))])])])) 0
       = Inr \<lparr>inputTokens = JNum 3, outputTokens = JNum 3\<rparr>"
proof -
  have p: "JSON_parse sampleEnv lineBroken = None"
    by (simp add: sample_eval)
  have n: "CHR 0x0A \<notin> set lineBroken" "CHR 0x0A \<notin> set lineA" "CHR 0x0A \<notin> set lineB"
    by (simp_all add: sample_eval)
  then have ls: "\<forall>l \<in> set ([lineA] @ [lineB]). CHR 0x0A \<notin> set l"
    by simp
  have without: "scanSessionLogs sampleEnv
        (Some (DirNode 0 [(''main'', DirNode 0 [(''sessions'',
           DirNode 0 [(''a.jsonl'', FileNode 150 (joinWith [CHR 0x0A] [lineA, lineB]))])])])) 0
       = Inr \<lparr>inputTokens = JNum 3, outputTokens = JNum 3\<rparr>"
    by (simp add: sample_eval)
  from malformed_line_skipped[OF p n(1) ls, of 0 "\<lparr>inputTokens = JNum 0, outputTokens = JNum 0\<rparr>"
         0 "[]" "''main''" 0 "[]" 0 "[]" "''a.jsonl''" 150 "[]" "[]" "[]"]
       without p n
  show ?thesis by simp
qed

text \<open>
  Claim C10. For every scan, only the entries whose names end in \<^verbatim>\<open>.jsonl\<close> inside the
  \<^verbatim>\<open>sessions\<close> subdirectory of an agent directory are read: an entry of a sessions
  directory with any other name, an entry of an agent directory that is not named
  \<^verbatim>\<open>sessions\<close>, and an entry of the agents directory that is no directory can each be
  taken away, whatever they hold, without changing the result of the scan.
\<close>

theorem other_names_ignored:
  "(\<not> endsWith name ''.jsonl'' \<longrightarrow>
      scanSessionLogs E
        (Some (DirNode m0 (as1 @ [(agent, DirNode m1 (es1 @ [(''sessions'',
           DirNode m2 (fs1 @ [(name, node)] @ fs2))] @ es2))] @ as2))) c
      = scanSessionLogs E
        (Some (DirNode m0' (as1 @ [(agent, DirNode m1' (es1 @ [(''sessions'',
           DirNode m2' (fs1 @ fs2))] @ es2))] @ as2))) c)
   \<and> (name \<noteq> ''sessions'' \<longrightarrow>
      scanSessionLogs E
        (Some (DirNode m0 (as1 @ [(agent, DirNode m1 (es1 @ [(name, node)] @ es2))] @ as2))) c
      = scanSessionLogs E
        (Some (DirNode m0' (as1 @ [(agent, DirNode m1' (es1 @ es2))] @ as2))) c)
   \<and> (\<not> isDirectory node \<longrightarrow>
      scanSessionLogs E (Some (DirNode m0 (as1 @ [(name, node)] @ as2))) c
      = scanSessionLogs E (Some (DirNode m0' (as1 @ as2))) c)"
proof (intro conjI impI)
  assume "\<not> endsWith name ''.jsonl''"
  then have "scanAgentDirs E c [Some (DirNode m2 (fs1 @ [(name, node)] @ fs2))] x
           = scanAgentDirs E c [Some (DirNode m2' (fs1 @ fs2))] x" for x
    by (rule scan_other_name)
  then show "scanSessionLogs E
        (Some (DirNode m0 (as1 @ [(agent, DirNode m1 (es1 @ [(''sessions'',
           DirNode m2 (fs1 @ [(name, node)] @ fs2))] @ es2))] @ as2))) c
      = scanSessionLogs E
        (Some (DirNode m0' (as1 @ [(agent, DirNode m1' (es1 @ [(''sessions'',
           DirNode m2' (fs1 @ fs2))] @ es2))] @ as2))) c"
    by (rule scan_same_sessions)
next
  assume "name \<noteq> ''sessions''"
  then have child: "childNode (DirNode m1 (es1 @ [(name, node)] @ es2)) ''sessions''
                  = childNode (DirNode m1' (es1 @ es2)) ''sessions''"
    by (simp add: map_add_def split: option.splits)
  show "scanSessionLogs E
        (Some (DirNode m0 (as1 @ [(agent, DirNode m1 (es1 @ [(name, node)] @ es2))] @ as2))) c
      = scanSessionLogs E
        (Some (DirNode m0' (as1 @ [(agent, DirNode m1' (es1 @ es2))] @ as2))) c"
    using child by (simp add: scanSessionLogs_def del: childNode.simps)
next
  assume "\<not> isDirectory node"
  then show "scanSessionLogs E (Some (DirNode m0 (as1 @ [(name, node)] @ as2))) c
      = scanSessionLogs E (Some (DirNode m0' (as1 @ as2))) c"
    by (simp add: scanSessionLogs_def)
qed

theorem other_names_ignored_witness:
  "\<not> endsWith ''notes.txt'' ''.jsonl''
   \<and> scanSessionLogs sampleEnv
        (Some (DirNode 0 [(''main'', DirNode 0 [(''sessions'',
           DirNode 0 [(''a.jsonl'', logFile 10 [lineA]), (''notes.txt'', logFile 200 [lineB])])])])) 0
       = Inr \<lparr>inputTokens = JNum 1, outputTokens = JNum 0\<rparr>
   \<and> ''b.jsonl'' \<noteq> ''sessions''
   \<and> scanSessionLogs sampleEnv
        (Some (DirNode 0 [(''main'', DirNode 0 [(''b.jsonl'', logFile 200 [lineB]),
           (''sessions'', DirNode 0 [(''a.jsonl'', logFile 10 [lineA])])])])) 0
       = Inr \<lparr>inputTokens = JNum 1, outputTokens = JNum 0\<rparr>
   \<and> \<not> isDirectory (logFile 200 [lineB])
   \<and> scanSessionLogs sampleEnv
        (Some (DirNode 0 [(''b.jsonl'', logFile 200 [lineB]), (''main'', DirNode 0
           [(''sessions'', DirNode 0 [(''a.jsonl'', logFile 10 [lineA])])])])) 0
       = Inr \<lparr>inputTokens = JNum 1, outputTokens = JNum 0\<rparr>"
proof -
  have base: "scanSessionLogs sampleEnv
        (Some (DirNode 0 [(''main'', DirNode 0 [(''sessions'',
           DirNode 0 [(''a.jsonl'', logFile 10 [lineA])])])])) 0
       = Inr \<lparr>inputTokens = JNum 1, outputTokens = JNum 0\<rparr>"
    by (simp add: sample_eval)
  have h: "\<not> endsWith ''notes.txt'' ''.jsonl''" "''b.jsonl'' \<noteq> ''sessions''"
          "\<not> isDirectory (logFile 200 [lineB])"
    by (simp_all add: endsWith_def logFile_def)
  from other_names_ignored[of "''notes.txt''" sampleEnv 0 "[]" "''main''" 0 "[]" 0
         "[(''a.jsonl'', logFile 10 [lineA])]" "logFile 200 [lineB]" "[]" "[]" "[]" 0 0 0 0]
  have one: "scanSessionLogs sampleEnv
        (Some (DirNode 0 [(''main'', DirNode 0 [(''sessions'',
           DirNode 0 [(''a.jsonl'', logFile 10 [lineA]), (''notes.txt'', logFile 200 [lineB])])])])) 0
       = Inr \<lparr>inputTokens = JNum 1, outputTokens = JNum 0\<rparr>"
    using h(1) base by simp
  from base h one show ?thesis
    by (simp add: sample_eval)
qed







end
